theory Spec2Isabelle
  imports Main "HOL-Library.Word"
begin

unbundle bit_operations_syntax

section \<open>The word-frequency counter \<^verbatim>\<open>freq_pmem_cpp.cpp\<close>\<close>

text \<open>
  A shallow embedding of the persistent-memory word-frequency counter: the hash function,
  the bucket table with its chained entries, \<^verbatim>\<open>freq::count\<close>,
  the tokenizing loop of \<^verbatim>\<open>freq::count_all_words\<close>, the argument check of
  \<^verbatim>\<open>main\<close> and the threads it starts and joins. The functions are sequential:
  locks and the durability of transactions have no counterpart here, and the threads are
  interleaved between calls of \<^verbatim>\<open>count\<close> only. The source file holds two versions
  of the program; they differ in the bucket lock only (a mutex against a reader-writer
  lock), so one embedding serves both, and the line numbers quoted are those of the second
  version.
\<close>

subsection \<open>Constants, bytes and C strings\<close>

definition NBUCKETS :: nat where
  "NBUCKETS = 10007"

definition MAXWORD :: nat where
  "MAXWORD = 8192"

definition LAYOUT :: string where
  "LAYOUT = ''freq''"

definition INT_MAX :: int where
  "INT_MAX = 2147483647"

text \<open>The terminator of a C string, and the value of a byte as \<^verbatim>\<open>unsigned char\<close>.\<close>

definition NUL :: char where
  "NUL = CHR 0x00"

definition byte :: "char \<Rightarrow> nat" where
  "byte c = of_char c"

text \<open>
  A \<^verbatim>\<open>const char *\<close> is modelled by the bytes of memory it points to, from the
  pointer to the end of the object. The string it denotes ends at the first \<^const>\<open>NUL\<close>;
  a read beyond the list is a read outside the object, and is an error.
\<close>

definition c_str :: "char list \<Rightarrow> char list" where
  "c_str s = takeWhile (\<lambda>c. c \<noteq> NUL) s"

text \<open>
  The conversion \<^verbatim>\<open>(unsigned)*s\<close> of a \<^verbatim>\<open>char\<close> to a 32-bit unsigned
  integer. Whether plain \<^verbatim>\<open>char\<close> is signed is a property of the platform and is
  a parameter: a signed \<^verbatim>\<open>char\<close> of 128 or more is negative and is sign-extended.
\<close>

definition to_unsigned :: "bool \<Rightarrow> char \<Rightarrow> 32 word" where
  "to_unsigned char_signed c =
     (if char_signed \<and> 128 \<le> byte c then word_of_nat (byte c) - 256
      else word_of_nat (byte c))"

text \<open>
  \<^verbatim>\<open>isalpha\<close> in the "C" locale (the program never sets another one): the ASCII
  letters.
\<close>

definition isalpha :: "char \<Rightarrow> bool" where
  "isalpha c = ((65 \<le> byte c \<and> byte c \<le> 90) \<or> (97 \<le> byte c \<and> byte c \<le> 122))"

subsection \<open>\<^verbatim>\<open>freq::hash\<close> (lines 265-279)\<close>

text \<open>
  The loop \<^verbatim>\<open>while (*s) { len++; h ^= ...; s++; }\<close>. The argument \<open>prev\<close> is
  \<^verbatim>\<open>*(s - 1)\<close>, the list is the memory from \<^verbatim>\<open>s\<close> on. The result is
  \<open>None\<close> when the scan leaves the object without having met a terminator.
\<close>

fun hash_loop :: "bool \<Rightarrow> char \<Rightarrow> char list \<Rightarrow> 32 word \<Rightarrow> 32 word \<Rightarrow> (32 word \<times> 32 word) option" where
  "hash_loop sg prev [] len h = None"
| "hash_loop sg prev (c # s) len h =
     (if c = NUL then Some (h, len)
      else let len' = len + 1 in
        hash_loop sg c s len'
          (h XOR (push_bit (unat (len' mod 3)) (to_unsigned sg c) +
                  push_bit (unat (len' mod 3) + 7) (to_unsigned sg prev))))"

text \<open>
  The first byte is read and stepped over unconditionally (\<^verbatim>\<open>*s++\<close>), before the
  loop tests \<^verbatim>\<open>*s\<close>.
\<close>

fun hash :: "bool \<Rightarrow> char list \<Rightarrow> 32 word option" where
  "hash sg [] = None"
| "hash sg (c # s) =
     (case hash_loop sg c s 0 (of_nat NBUCKETS XOR push_bit 2 (to_unsigned sg c)) of
        None \<Rightarrow> None
      | Some (h, len) \<Rightarrow> Some ((h XOR len) mod of_nat NBUCKETS))"

subsection \<open>The reference mixing function of the specification\<close>

text \<open>
  The specification's words, over the natural numbers: seed with \<open>N\<close> XORed with the
  first byte shifted by 2; for each subsequent byte at position \<open>p\<close> (the second byte
  has \<open>p = 1\<close>) XOR the accumulator with
  \<open>(byte << (p mod 3)) + (previous_byte << (p mod 3 + 7))\<close>.
\<close>

definition mix_step :: "char list \<Rightarrow> nat \<Rightarrow> nat \<Rightarrow> nat" where
  "mix_step w p acc =
     acc XOR (push_bit (p mod 3) (byte (w ! p)) + push_bit (p mod 3 + 7) (byte (w ! (p - 1))))"

definition mix :: "char list \<Rightarrow> nat" where
  "mix w = fold (mix_step w) [1..<length w] (NBUCKETS XOR push_bit 2 (byte (w ! 0)))"

text \<open>After the scan the specification XORs in the total length and reduces modulo \<open>N\<close>.\<close>

definition hash_ref :: "char list \<Rightarrow> nat" where
  "hash_ref w = (mix w XOR length w) mod NBUCKETS"

text \<open>
  A word is \<open>plain\<close> for a platform when the conversion to \<^verbatim>\<open>unsigned\<close> yields the
  byte's value: always where \<^verbatim>\<open>char\<close> is unsigned, for bytes below 128 where it is
  signed.
\<close>

definition plain :: "bool \<Rightarrow> char list \<Rightarrow> bool" where
  "plain sg w = (sg \<longrightarrow> (\<forall>c \<in> set w. byte c < 128))"

subsection \<open>Failures\<close>

text \<open>
  What the program can do instead of returning: the exception thrown by
  \<^verbatim>\<open>count_all_words\<close> when \<^verbatim>\<open>fopen\<close> fails (with its message), and the
  undefined behaviours of C++ that the code can reach on some input, each a value of its
  own: a read or write outside an object, the dereference of a pointer to no entry, the
  increment of a count at \<^verbatim>\<open>INT_MAX\<close>. A scan of a cyclic chain never returns;
  that outcome is the last value.
\<close>

datatype error =
    Runtime_error string
  | Out_of_bounds
  | Bad_pointer
  | Int_overflow
  | Nontermination

subsection \<open>\<^verbatim>\<open>freq::count_all_words\<close> (lines 325-366)\<close>

text \<open>
  The state of the loop is the buffer \<^verbatim>\<open>char word[MAXWORD]\<close>, the pointer
  \<^verbatim>\<open>ptr\<close> (\<open>None\<close> for \<^verbatim>\<open>NULL\<close>, otherwise its offset in the buffer) and the
  state \<open>st\<close> that \<^verbatim>\<open>count\<close> works on. The function called for each word is a
  parameter \<open>cnt\<close>, so that the same loop can be run with \<^verbatim>\<open>freq::count\<close> or with a
  function that records its arguments. It receives the pointer \<^verbatim>\<open>word\<close>, that is,
  the whole buffer.

  \<^verbatim>\<open>*ptr++ = c\<close>: a store through \<^verbatim>\<open>ptr\<close>; outside the buffer it is an error.
\<close>

definition put :: "char list \<Rightarrow> nat \<Rightarrow> char \<Rightarrow> error + char list" where
  "put word p c = (if p < length word then Inr (word[p := c]) else Inl Out_of_bounds)"

text \<open>
  \<^verbatim>\<open>*ptr++ = '\0'; count(word);\<close>, the three places where a word is stored. The
  caller resets \<^verbatim>\<open>ptr\<close>.
\<close>

definition store_word ::
  "(char list \<Rightarrow> 's \<Rightarrow> error + 's) \<Rightarrow> char list \<Rightarrow> nat \<Rightarrow> 's \<Rightarrow> error + char list \<times> 's" where
  "store_word cnt word p st =
     (case put word p NUL of
        Inl e \<Rightarrow> Inl e
      | Inr word' \<Rightarrow> (case cnt word' st of Inl e \<Rightarrow> Inl e | Inr st' \<Rightarrow> Inr (word', st')))"

text \<open>The body of the \<^verbatim>\<open>while ((c = getc(fp)) != EOF)\<close> loop, for one byte \<open>c\<close>.\<close>

definition on_char ::
  "(char list \<Rightarrow> 's \<Rightarrow> error + 's) \<Rightarrow> char \<Rightarrow> char list \<times> nat option \<times> 's
     \<Rightarrow> error + char list \<times> nat option \<times> 's" where
  "on_char cnt c s =
     (case s of (word, ptr, st) \<Rightarrow>
        if isalpha c then
          (case ptr of
             None \<Rightarrow>
               (case put word 0 c of Inl e \<Rightarrow> Inl e | Inr word' \<Rightarrow> Inr (word', Some 1, st))
           | Some p \<Rightarrow>
               if p < MAXWORD - 1 then
                 (case put word p c of
                    Inl e \<Rightarrow> Inl e
                  | Inr word' \<Rightarrow> Inr (word', Some (p + 1), st))
               else
                 (case store_word cnt word p st of
                    Inl e \<Rightarrow> Inl e
                  | Inr (word', st') \<Rightarrow> Inr (word', None, st')))
        else
          (case ptr of
             Some p \<Rightarrow>
               (case store_word cnt word p st of
                  Inl e \<Rightarrow> Inl e
                | Inr (word', st') \<Rightarrow> Inr (word', None, st'))
           | None \<Rightarrow> Inr (word, None, st)))"

text \<open>The loop over the bytes of the file, up to \<^verbatim>\<open>EOF\<close>.\<close>

fun getc_loop ::
  "(char list \<Rightarrow> 's \<Rightarrow> error + 's) \<Rightarrow> char list \<Rightarrow> char list \<times> nat option \<times> 's
     \<Rightarrow> error + char list \<times> nat option \<times> 's" where
  "getc_loop cnt [] s = Inr s"
| "getc_loop cnt (c # cs) s =
     (case on_char cnt c s of Inl e \<Rightarrow> Inl e | Inr s' \<Rightarrow> getc_loop cnt cs s')"

text \<open>
  The function after a successful \<^verbatim>\<open>fopen\<close>: \<^verbatim>\<open>ptr = NULL\<close>, the loop, the last
  word. The buffer is not initialised in the source: its first contents \<open>word0\<close> are
  arbitrary.
\<close>

definition count_stream ::
  "(char list \<Rightarrow> 's \<Rightarrow> error + 's) \<Rightarrow> char list \<Rightarrow> char list \<Rightarrow> 's \<Rightarrow> error + 's" where
  "count_stream cnt bytes word0 st =
     (case getc_loop cnt bytes (word0, None, st) of
        Inl e \<Rightarrow> Inl e
      | Inr (word, ptr, st') \<Rightarrow>
          (case ptr of
             None \<Rightarrow> Inr st'
           | Some p \<Rightarrow>
               (case store_word cnt word p st' of
                  Inl e \<Rightarrow> Inl e
                | Inr (word', st'') \<Rightarrow> Inr st'')))"

text \<open>
  The file system maps a name to the bytes of the file, or to \<open>None\<close> when the file cannot
  be opened; then the function throws \<^verbatim>\<open>std::runtime_error("fopen: " + fname)\<close>.
\<close>

definition count_all_words_with ::
  "(char list \<Rightarrow> 's \<Rightarrow> error + 's) \<Rightarrow> (string \<Rightarrow> char list option) \<Rightarrow> string \<Rightarrow> char list \<Rightarrow> 's
     \<Rightarrow> error + 's" where
  "count_all_words_with cnt fs fname word0 st =
     (case fs fname of
        None \<Rightarrow> Inl (Runtime_error (''fopen: '' @ fname))
      | Some bytes \<Rightarrow> count_stream cnt bytes word0 st)"

text \<open>
  The arguments of the calls of \<^verbatim>\<open>count\<close>, in order: the loop run with a function that
  appends its argument (the buffer as it is at the call) to a list. The tokens are the
  strings these arguments denote.
\<close>

definition record_call :: "char list \<Rightarrow> char list list \<Rightarrow> error + char list list" where
  "record_call m tr = Inr (tr @ [m])"

definition calls :: "char list \<Rightarrow> char list \<Rightarrow> error + char list list" where
  "calls word0 bytes = count_stream record_call bytes word0 []"

definition tokens :: "char list \<Rightarrow> char list \<Rightarrow> error + char list list" where
  "tokens word0 bytes = map_sum id (map c_str) (calls word0 bytes)"

subsection \<open>The persistent table (lines 238-261)\<close>

text \<open>
  The pool is an arena: the address of an entry is its index in \<open>heap\<close>, an allocation
  appends, and nothing is freed (the program never frees an entry). A
  \<^verbatim>\<open>persistent_ptr<entry>\<close> is an address or null. An entry holds its
  \<^verbatim>\<open>next\<close> pointer, the bytes of the string that \<^verbatim>\<open>word\<close> points to and its
  \<^verbatim>\<open>count\<close>; the two locks have no state in a sequential run. The bucket array
  \<^verbatim>\<open>bucket[NBUCKETS]\<close> is the function \<open>ht\<close> from the index to the head of the chain,
  \<^verbatim>\<open>ht[h].entries\<close>; the code indexes it with a hash value only, which is below
  \<^const>\<open>NBUCKETS\<close>.
\<close>

type_synonym addr = nat

record entry =
  e_next :: "addr option"
  e_word :: "char list"
  e_count :: int

record pool =
  ht :: "nat \<Rightarrow> addr option"
  heap :: "entry list"

definition empty_pool :: pool where
  "empty_pool = \<lparr>ht = (\<lambda>_. None), heap = []\<rparr>"

text \<open>
  \<^verbatim>\<open>strcmp\<close> on two memory images: the bytes are compared as
  \<^verbatim>\<open>unsigned char\<close> up to the first difference or a common terminator. Leaving
  either object is an error.
\<close>

fun strcmp :: "char list \<Rightarrow> char list \<Rightarrow> int option" where
  "strcmp (a # as) (b # bs) =
     (if a \<noteq> b then Some (if byte a < byte b then - 1 else 1)
      else if a = NUL then Some 0
      else strcmp as bs)"
| "strcmp _ _ = None"

text \<open>
  \<^verbatim>\<open>pmemobj_tx_strdup\<close>: a copy of the string, terminator included. The allocation is
  taken to succeed: the region is provisioned with the capacity the entries need.
\<close>

fun strdup :: "char list \<Rightarrow> char list option" where
  "strdup [] = None"
| "strdup (c # s) = (if c = NUL then Some [NUL] else map_option ((#) c) (strdup s))"

subsection \<open>\<^verbatim>\<open>freq::count\<close> (lines 282-316)\<close>

text \<open>
  The scan \<^verbatim>\<open>for (; ep != nullptr; ep = ep->next) if (strcmp(word, ep->word.get()) == 0)\<close>.
  It yields the address of the first entry whose word compares equal, or null at the end of
  the chain. On a cyclic chain without a match it does not return: the value is \<open>None\<close>.
\<close>

partial_function (option) find_entry ::
  "entry list \<Rightarrow> char list \<Rightarrow> addr option \<Rightarrow> (error + addr option) option" where
  "find_entry hp word ep =
     (case ep of
        None \<Rightarrow> Some (Inr None)
      | Some a \<Rightarrow>
          if a < length hp then
            (case strcmp word (e_word (hp ! a)) of
               None \<Rightarrow> Some (Inl Out_of_bounds)
             | Some r \<Rightarrow>
                 if r = 0 then Some (Inr (Some a))
                 else find_entry hp word (e_next (hp ! a)))
          else Some (Inl Bad_pointer))"

declare find_entry.simps [code]

text \<open>
  \<^verbatim>\<open>count\<close>: hash, scan, then either the transaction that increments the count of the
  entry found, or the transaction that allocates \<^verbatim>\<open>entry(1, word, ht[h].entries)\<close> and
  stores its address in \<^verbatim>\<open>ht[h].entries\<close>. Each transaction is one step of the
  state. The increment of an \<^verbatim>\<open>int\<close> at \<^const>\<open>INT_MAX\<close> is undefined.
\<close>

definition count :: "bool \<Rightarrow> char list \<Rightarrow> pool \<Rightarrow> error + pool" where
  "count sg word p =
     (case hash sg word of
        None \<Rightarrow> Inl Out_of_bounds
      | Some hw \<Rightarrow>
          let h = unat hw in
          (case find_entry (heap p) word (ht p h) of
             None \<Rightarrow> Inl Nontermination
           | Some (Inl e) \<Rightarrow> Inl e
           | Some (Inr (Some a)) \<Rightarrow>
               let c = e_count (heap p ! a) in
               if c = INT_MAX then Inl Int_overflow
               else Inr (p\<lparr>heap := (heap p)[a := (heap p ! a)\<lparr>e_count := c + 1\<rparr>]\<rparr>)
           | Some (Inr None) \<Rightarrow>
               (case strdup word of
                  None \<Rightarrow> Inl Out_of_bounds
                | Some w \<Rightarrow>
                    Inr (p\<lparr>heap := heap p @ [\<lparr>e_next = ht p h, e_word = w, e_count = 1\<rparr>],
                           ht := (ht p)(h := Some (length (heap p)))\<rparr>))))"

subsection \<open>The transactions of \<^verbatim>\<open>count\<close> (lines 299-301 and 309-315)\<close>

text \<open>
  A transaction is the list of the stores its body makes to persistent memory; committed,
  they are all applied, in order. \<^verbatim>\<open>make_persistent<entry>\<close> allocates and
  initialises an entry, \<^verbatim>\<open>ht[h].entries = ep\<close> stores a bucket head,
  \<^verbatim>\<open>++ep->count\<close> stores a count.
\<close>

datatype tx_write =
    Alloc_entry entry
  | Store_head nat "addr option"
  | Store_count addr int

fun apply_write :: "tx_write \<Rightarrow> pool \<Rightarrow> pool" where
  "apply_write (Alloc_entry e) p = p\<lparr>heap := heap p @ [e]\<rparr>"
| "apply_write (Store_head h a) p = p\<lparr>ht := (ht p)(h := a)\<rparr>"
| "apply_write (Store_count a c) p = p\<lparr>heap := (heap p)[a := (heap p ! a)\<lparr>e_count := c\<rparr>]\<rparr>"

definition commit :: "tx_write list \<Rightarrow> pool \<Rightarrow> pool" where
  "commit ws p = fold apply_write ws p"

text \<open>
  The transaction that a call of \<^verbatim>\<open>count\<close> runs: the call reaches exactly one
  \<^verbatim>\<open>exec_tx\<close>, the one of the entry found or the one of the new entry. The lemma
  \<open>count_commit\<close> shows that \<^const>\<open>count\<close> is the commit of this transaction.
\<close>

definition count_tx :: "bool \<Rightarrow> char list \<Rightarrow> pool \<Rightarrow> error + tx_write list" where
  "count_tx sg word p =
     (case hash sg word of
        None \<Rightarrow> Inl Out_of_bounds
      | Some hw \<Rightarrow>
          let h = unat hw in
          (case find_entry (heap p) word (ht p h) of
             None \<Rightarrow> Inl Nontermination
           | Some (Inl e) \<Rightarrow> Inl e
           | Some (Inr (Some a)) \<Rightarrow>
               let c = e_count (heap p ! a) in
               if c = INT_MAX then Inl Int_overflow
               else Inr [Store_count a (c + 1)]
           | Some (Inr None) \<Rightarrow>
               (case strdup word of
                  None \<Rightarrow> Inl Out_of_bounds
                | Some w \<Rightarrow>
                    Inr [Alloc_entry \<lparr>e_next = ht p h, e_word = w, e_count = 1\<rparr>,
                         Store_head h (Some (length (heap p)))])))"

definition count_all_words ::
  "bool \<Rightarrow> (string \<Rightarrow> char list option) \<Rightarrow> string \<Rightarrow> char list \<Rightarrow> pool \<Rightarrow> error + pool" where
  "count_all_words sg = count_all_words_with (count sg)"

text \<open>
  The total the table holds for a word: the count of the entry that the scan of
  \<^verbatim>\<open>count\<close> meets for it, zero when there is none. The program has no function that
  reads the table; this is the observation the claims speak of.
\<close>

definition word_total :: "bool \<Rightarrow> pool \<Rightarrow> char list \<Rightarrow> int" where
  "word_total sg p word =
     (case hash sg word of
        None \<Rightarrow> 0
      | Some hw \<Rightarrow>
          (case find_entry (heap p) word (ht p (unat hw)) of
             Some (Inr (Some a)) \<Rightarrow> e_count (heap p ! a)
           | _ \<Rightarrow> 0))"

definition result_total :: "bool \<Rightarrow> char list \<Rightarrow> error + pool \<Rightarrow> error + int" where
  "result_total sg word r = map_sum id (\<lambda>p. word_total sg p word) r"

text \<open>Two sequential calls of \<^verbatim>\<open>count_all_words\<close> on the same table.\<close>

definition two_calls ::
  "bool \<Rightarrow> (string \<Rightarrow> char list option) \<Rightarrow> string \<Rightarrow> string \<Rightarrow> char list \<Rightarrow> char list \<Rightarrow> pool
     \<Rightarrow> error + pool" where
  "two_calls sg fs fa fb w1 w2 p =
     (case count_all_words sg fs fa w1 p of
        Inl e \<Rightarrow> Inl e
      | Inr p1 \<Rightarrow> count_all_words sg fs fb w2 p1)"

subsection \<open>Chains\<close>

text \<open>
  The entry at \<open>a\<close> is in the chain that starts at \<open>ep\<close>: it is reached from \<open>ep\<close> by
  following \<^verbatim>\<open>next\<close> pointers through entries of the pool.
\<close>

inductive in_chain :: "entry list \<Rightarrow> addr option \<Rightarrow> addr \<Rightarrow> bool" for hp where
  head: "a < length hp \<Longrightarrow> in_chain hp (Some a) a"
| step: "b < length hp \<Longrightarrow> in_chain hp (e_next (hp ! b)) a \<Longrightarrow> in_chain hp (Some b) a"

code_pred in_chain .

text \<open>
  The entry at \<open>a\<close> is the first one in the chain from \<open>ep\<close> whose word equals \<open>word\<close>;
  and: the chain from \<open>ep\<close> ends, and none of its words equals \<open>word\<close>.
\<close>

inductive first_match :: "entry list \<Rightarrow> char list \<Rightarrow> addr option \<Rightarrow> addr \<Rightarrow> bool"
  for hp word where
  here: "a < length hp \<Longrightarrow> strcmp word (e_word (hp ! a)) = Some 0 \<Longrightarrow>
         first_match hp word (Some a) a"
| later: "b < length hp \<Longrightarrow> strcmp word (e_word (hp ! b)) = Some r \<Longrightarrow> r \<noteq> 0 \<Longrightarrow>
          first_match hp word (e_next (hp ! b)) a \<Longrightarrow> first_match hp word (Some b) a"

code_pred first_match .

inductive absent :: "entry list \<Rightarrow> char list \<Rightarrow> addr option \<Rightarrow> bool" for hp word where
  null: "absent hp word None"
| skip: "b < length hp \<Longrightarrow> strcmp word (e_word (hp ! b)) = Some r \<Longrightarrow> r \<noteq> 0 \<Longrightarrow>
         absent hp word (e_next (hp ! b)) \<Longrightarrow> absent hp word (Some b)"

code_pred absent .

text \<open>
  The chain from \<open>ep\<close> is well formed: it ends, every pointer in it is the address of an
  entry of the pool, and every word in it has its terminator.
\<close>

inductive chain_ok :: "entry list \<Rightarrow> addr option \<Rightarrow> bool" for hp where
  nil: "chain_ok hp None"
| link: "b < length hp \<Longrightarrow> NUL \<in> set (e_word (hp ! b)) \<Longrightarrow> chain_ok hp (e_next (hp ! b)) \<Longrightarrow>
         chain_ok hp (Some b)"

code_pred chain_ok .

text \<open>The pool \<open>hp'\<close> has the entries of \<open>hp\<close>, with the same links and words.\<close>

definition same_links :: "entry list \<Rightarrow> entry list \<Rightarrow> bool" where
  "same_links hp hp' =
     (length hp \<le> length hp' \<and>
      (\<forall>a < length hp. e_next (hp' ! a) = e_next (hp ! a) \<and> e_word (hp' ! a) = e_word (hp ! a)))"

subsection \<open>\<^verbatim>\<open>main\<close> (lines 382-414)\<close>

text \<open>
  \<^verbatim>\<open>main\<close> up to the start of the threads, as the list of the actions it takes on the
  outside world, in order. The program name is \<^verbatim>\<open>argv[0]\<close> and \<open>operands\<close> are
  the other arguments, so \<^verbatim>\<open>argc\<close> is their number plus one. The pool library is a
  parameter: \<open>pool_open\<close> says whether the pool opens (otherwise \<^verbatim>\<open>pool::open\<close>
  throws, nothing catches it and the process is terminated) and whether the root has no
  bucket array yet. The last action hands the word files to the threads; what happens from
  there on is the subject of the next subsection.
\<close>

datatype action =
    Print_stderr string
  | Exit nat
  | Pool_open string string
  | Make_buckets
  | Run_driver "string list"
  | Terminate

definition usage :: "string \<Rightarrow> string" where
  "usage prog = ''usage: '' @ prog @ '' pmemfile wordfiles...'' @ [CHR 0x0A]"

definition main :: "string \<Rightarrow> string list \<Rightarrow> (string \<Rightarrow> string \<Rightarrow> bool option) \<Rightarrow> action list" where
  "main prog operands pool_open =
     (if 1 + length operands < 3 then [Print_stderr (usage prog), Exit 1]
      else
        Pool_open (operands ! 0) LAYOUT #
        (case pool_open (operands ! 0) LAYOUT of
           None \<Rightarrow> [Terminate]
         | Some ht_null \<Rightarrow>
             (if ht_null then [Make_buckets] else []) @ [Run_driver (drop 1 operands)]))"

text \<open>The actions that use the durable region.\<close>

fun region_access :: "action \<Rightarrow> bool" where
  "region_access (Pool_open path layout) = True"
| "region_access Make_buckets = True"
| "region_access (Run_driver files) = True"
| "region_access _ = False"

subsection \<open>The threads of \<^verbatim>\<open>main\<close> (lines 402-413)\<close>

text \<open>
  The process from the first \<^verbatim>\<open>threads.emplace_back\<close> on, as a machine that takes
  one step of one thread at a time; which thread steps is chosen from outside, so every
  schedule is covered. A thread made by \<^verbatim>\<open>emplace_back\<close> runs
  \<^verbatim>\<open>count_all_words\<close> on its file: first it has only been created, then it has opened
  its file and has the words still to pass to \<^verbatim>\<open>count\<close>, then it has returned.

  The granularity is coarse: a call of \<^verbatim>\<open>count\<close> is one step, and the words of a
  file are fixed when the file is opened. The claims made of this machine are about which
  threads return and how the process ends, not about the interleaving inside
  \<^verbatim>\<open>count\<close>.
\<close>

datatype thread = Created string | Counting "char list list" | Returned

text \<open>
  The process runs, has called \<^verbatim>\<open>exit\<close> with a status, or has been ended by
  \<^verbatim>\<open>std::terminate\<close>.
\<close>

datatype status = Alive | Exited nat | Terminated

text \<open>
  The pool, the word files that \<^verbatim>\<open>main\<close> has not yet given a thread, the threads
  in the order of their creation, the number of threads \<^verbatim>\<open>main\<close> has joined, and
  how the process stands.
\<close>

record proc =
  pr_pool :: pool
  pr_files :: "string list"
  pr_threads :: "thread list"
  pr_joined :: nat
  pr_status :: status

datatype who = Driver | Worker nat

definition init_proc :: "pool \<Rightarrow> string list \<Rightarrow> proc" where
  "init_proc p files =
     \<lparr>pr_pool = p, pr_files = files, pr_threads = [], pr_joined = 0, pr_status = Alive\<rparr>"

text \<open>
  One step of \<^verbatim>\<open>main\<close> (the \<open>Driver\<close>) or of the thread number \<open>i\<close>; \<open>None\<close>
  when that thread cannot move (the process has ended, \<^verbatim>\<open>join\<close> waits for a thread
  that has not returned, the thread has returned) or when its move is undefined behaviour
  in \<^verbatim>\<open>count\<close>.
  \<^item> \<open>Driver\<close>: one turn of the loop that creates the threads; then one
    \<^verbatim>\<open>t.join()\<close>, possible once that thread has returned; then
    \<^verbatim>\<open>pop.close(); exit(0)\<close>.
  \<^item> \<open>Worker i\<close>: \<^verbatim>\<open>fopen\<close>; when it fails the function throws, the exception
    leaves the thread's function, which no handler encloses, and
    \<^verbatim>\<open>std::terminate\<close> ends the process. Otherwise one call of \<^verbatim>\<open>count\<close>, or
    the return. Each thread has its own buffer, \<open>bufs i\<close>.
\<close>

definition driver_step ::
  "bool \<Rightarrow> (string \<Rightarrow> char list option) \<Rightarrow> (nat \<Rightarrow> char list) \<Rightarrow> who \<Rightarrow> proc \<Rightarrow> proc option" where
  "driver_step sg fs bufs w s =
     (if pr_status s \<noteq> Alive then None
      else case w of
        Driver \<Rightarrow>
          (case pr_files s of
             f # rest \<Rightarrow> Some (s\<lparr>pr_files := rest, pr_threads := pr_threads s @ [Created f]\<rparr>)
           | [] \<Rightarrow>
               if pr_joined s < length (pr_threads s) then
                 (if pr_threads s ! pr_joined s = Returned
                  then Some (s\<lparr>pr_joined := pr_joined s + 1\<rparr>)
                  else None)
               else Some (s\<lparr>pr_status := Exited 0\<rparr>))
      | Worker i \<Rightarrow>
          if i < length (pr_threads s) then
            (case pr_threads s ! i of
               Created f \<Rightarrow>
                 (case fs f of
                    None \<Rightarrow> Some (s\<lparr>pr_status := Terminated\<rparr>)
                  | Some bytes \<Rightarrow>
                      (case calls (bufs i) bytes of
                         Inl e \<Rightarrow> None
                       | Inr ms \<Rightarrow> Some (s\<lparr>pr_threads := (pr_threads s)[i := Counting ms]\<rparr>)))
             | Counting [] \<Rightarrow> Some (s\<lparr>pr_threads := (pr_threads s)[i := Returned]\<rparr>)
             | Counting (m # ms) \<Rightarrow>
                 (case count sg m (pr_pool s) of
                    Inl e \<Rightarrow> None
                  | Inr p' \<Rightarrow>
                      Some (s\<lparr>pr_pool := p', pr_threads := (pr_threads s)[i := Counting ms]\<rparr>))
             | Returned \<Rightarrow> None)
          else None)"

text \<open>A run under a schedule: the list of the threads that step, in order.\<close>

fun run ::
  "bool \<Rightarrow> (string \<Rightarrow> char list option) \<Rightarrow> (nat \<Rightarrow> char list) \<Rightarrow> who list \<Rightarrow> proc \<Rightarrow> proc option" where
  "run sg fs bufs [] s = Some s"
| "run sg fs bufs (w # ws) s =
     (case driver_step sg fs bufs w s of None \<Rightarrow> None | Some s' \<Rightarrow> run sg fs bufs ws s')"

text \<open>
  The invariant of a run in which the file number \<open>k\<close> cannot be opened: the process has
  not exited, the threads are those of the first files, the thread of file \<open>k\<close> is
  still where it was created, and \<^verbatim>\<open>main\<close> has not joined it.
\<close>

definition stuck_at :: "string list \<Rightarrow> nat \<Rightarrow> proc \<Rightarrow> bool" where
  "stuck_at files k s =
     ((\<forall>n. pr_status s \<noteq> Exited n)
      \<and> pr_files s = drop (length (pr_threads s)) files
      \<and> length (pr_threads s) \<le> length files
      \<and> (k < length (pr_threads s) \<longrightarrow> pr_threads s ! k = Created (files ! k))
      \<and> pr_joined s \<le> k)"

subsection \<open>The tokens of the specification\<close>

text \<open>
  The specification's words: the tokens are the maximal runs of alphabetic bytes, the
  non-alphabetic bytes are separators. \<open>fields\<close> splits a stream at every separator;
  the runs are the fields that are not empty.
\<close>

fun fields :: "char list \<Rightarrow> char list list" where
  "fields [] = [[]]"
| "fields (c # cs) =
     (if isalpha c then (c # hd (fields cs)) # tl (fields cs) else [] # fields cs)"

definition runs :: "char list \<Rightarrow> char list list" where
  "runs cs = filter (\<lambda>f. f \<noteq> []) (fields cs)"

subsection \<open>An abstract view of the tokenizing loop\<close>

text \<open>
  The loop seen without its buffer: the word in progress \<open>cur\<close>, the tokens emitted
  while reading a stream, the word pending at its end. These functions are used in the
  proofs only; the lemma \<open>getc_loop_refines\<close> relates the loop to them.
\<close>

definition tok_step :: "char \<Rightarrow> char list option \<Rightarrow> char list option \<times> char list option" where
  "tok_step c cur =
     (if isalpha c then
        (case cur of
           None \<Rightarrow> (None, Some [c])
         | Some w \<Rightarrow> if length w < MAXWORD - 1 then (None, Some (w @ [c])) else (Some w, None))
      else (cur, None))"

fun emitted :: "char list option \<Rightarrow> char list \<Rightarrow> char list list" where
  "emitted cur [] = []"
| "emitted cur (c # cs) =
     (case fst (tok_step c cur) of None \<Rightarrow> [] | Some t \<Rightarrow> [t])
     @ emitted (snd (tok_step c cur)) cs"

fun pending :: "char list option \<Rightarrow> char list \<Rightarrow> char list option" where
  "pending cur [] = cur"
| "pending cur (c # cs) = pending (snd (tok_step c cur)) cs"

definition flush :: "char list option \<Rightarrow> char list list" where
  "flush cur = (case cur of None \<Rightarrow> [] | Some w \<Rightarrow> [w])"

definition toks :: "char list option \<Rightarrow> char list \<Rightarrow> char list list" where
  "toks cur cs = emitted cur cs @ flush (pending cur cs)"

definition cur_word :: "char list option \<Rightarrow> char list" where
  "cur_word cur = (case cur of None \<Rightarrow> [] | Some w \<Rightarrow> w)"

text \<open>A sequence of calls with an error ending it, as the loop makes them.\<close>

fun foldE :: "('a \<Rightarrow> 's \<Rightarrow> error + 's) \<Rightarrow> 'a list \<Rightarrow> 's \<Rightarrow> error + 's" where
  "foldE f [] s = Inr s"
| "foldE f (x # xs) s = (case f x s of Inl e \<Rightarrow> Inl e | Inr s' \<Rightarrow> foldE f xs s')"

text \<open>
  The buffer \<open>m\<close> holds the token \<open>t\<close>, its terminator and then anything; the invariant
  of the loop; a token as the loop makes them.
\<close>

definition snap :: "char list \<Rightarrow> char list \<Rightarrow> bool" where
  "snap m t = (length t < length m \<and> take (length t) m = t \<and> m ! length t = NUL)"

definition buf_inv :: "char list \<Rightarrow> nat option \<Rightarrow> char list option \<Rightarrow> bool" where
  "buf_inv word ptr cur =
     (length word = MAXWORD \<and>
      (case ptr of
         None \<Rightarrow> cur = None
       | Some p \<Rightarrow> 0 < p \<and> p < MAXWORD \<and> cur = Some (take p word)))"

definition good_token :: "char list \<Rightarrow> bool" where
  "good_token t = (t \<noteq> [] \<and> length t \<le> MAXWORD - 1 \<and> (\<forall>c \<in> set t. isalpha c))"

definition cur_ok :: "char list option \<Rightarrow> bool" where
  "cur_ok cur = (case cur of None \<Rightarrow> True | Some w \<Rightarrow> good_token w)"

subsection \<open>Example data\<close>

text \<open>
  The pool after \<open>ab\<close> has been counted once in the empty pool (its hash is 8255), a few
  files (no other file can be opened), a pool library under which every pool opens
  without a bucket array, and buffers for the threads.
\<close>

definition one_word_pool :: pool where
  "one_word_pool =
     \<lparr>ht = (\<lambda>_. None)(8255 := Some 0),
      heap = [\<lparr>e_next = None, e_word = ''ab'' @ [NUL], e_count = 1\<rparr>]\<rparr>"

definition example_fs :: "string \<Rightarrow> char list option" where
  "example_fs fname =
     (if fname = ''ab.txt'' then Some ''ab''
      else if fname = ''a.txt'' then Some ''a''
      else if fname = ''b.txt'' then Some ''b''
      else if fname = ''the_cat.txt'' then Some ''the cat''
      else if fname = ''the.txt'' then Some ''the ''
      else if fname = ''cat.txt'' then Some ''cat''
      else None)"

definition fresh_region :: "string \<Rightarrow> string \<Rightarrow> bool option" where
  "fresh_region path layout = Some True"

definition example_bufs :: "nat \<Rightarrow> char list" where
  "example_bufs i = replicate MAXWORD NUL"

text \<open>
  The process after \<^verbatim>\<open>main\<close> has created the thread of a file that does not exist
  and that thread has run, the thread of the second file not yet created.
\<close>

definition aborted_proc :: proc where
  "aborted_proc =
     \<lparr>pr_pool = empty_pool, pr_files = [''a.txt''], pr_threads = [Created ''missing.txt''],
      pr_joined = 0, pr_status = Terminated\<rparr>"

text \<open>
  A pool in which the entry of \<open>ab\<close> holds the greatest count, and the pool after \<open>ab\<close>
  has been counted three times and then \<open>iyv\<close> once: both words hash to 8255, so the
  chain of that bucket has two entries, the newer first.
\<close>

definition max_pool :: pool where
  "max_pool =
     \<lparr>ht = (\<lambda>_. None)(8255 := Some 0),
      heap = [\<lparr>e_next = None, e_word = ''ab'' @ [NUL], e_count = 2147483647\<rparr>]\<rparr>"

definition two_word_pool :: pool where
  "two_word_pool =
     \<lparr>ht = (\<lambda>_. None)(8255 := Some 1),
      heap = [\<lparr>e_next = None, e_word = ''ab'' @ [NUL], e_count = 3\<rparr>,
              \<lparr>e_next = Some 0, e_word = ''iyv'' @ [NUL], e_count = 1\<rparr>]\<rparr>"

section \<open>Properties of the hash function\<close>

lemma byte_lt_256: "byte c < 256"
  unfolding byte_def by (rule nat_of_char_less_256)

lemma unat_to_unsigned: "\<not> sg \<or> byte c < 128 \<Longrightarrow> unat (to_unsigned sg c) = byte c"
  using byte_lt_256[of c] by (auto simp: to_unsigned_def unat_of_nat)

lemma push_bit_byte_bound: "x < 256 \<Longrightarrow> k \<le> 9 \<Longrightarrow> push_bit k (x::nat) < 2 ^ 17"
proof -
  assume a: "x < 256" "k \<le> 9"
  have "(2::nat) ^ k \<le> 2 ^ 9" using a by (intro power_increasing) auto
  then have "x * 2 ^ k < 256 * 2 ^ 9"
    using a by (intro mult_less_le_imp_less) auto
  then show ?thesis by (simp add: push_bit_eq_mult)
qed

lemma unat_push_bit_byte:
  fixes x :: "32 word"
  assumes "unat x < 256" "k \<le> 9"
  shows "unat (push_bit k x) = push_bit k (unat x)"
proof -
  have "push_bit k (unat x) < 2 ^ 17" using assms by (rule push_bit_byte_bound)
  then have "push_bit k (unat x) < 2 ^ 32" by simp
  then show ?thesis
    by (simp add: unsigned_push_bit_eq take_bit_nat_eq_self)
qed

lemma unat_term:
  assumes c: "\<not> sg \<or> byte c < 128" and p: "\<not> sg \<or> byte p < 128" and a: "a \<le> 2"
  shows "unat (push_bit a (to_unsigned sg c) + push_bit (a + 7) (to_unsigned sg p))
         = push_bit a (byte c) + push_bit (a + 7) (byte p)"
proof -
  have 1: "unat (push_bit a (to_unsigned sg c)) = push_bit a (byte c)"
    using unat_push_bit_byte[of "to_unsigned sg c" a] unat_to_unsigned[OF c] byte_lt_256[of c] a
    by simp
  have 2: "unat (push_bit (a + 7) (to_unsigned sg p)) = push_bit (a + 7) (byte p)"
    using unat_push_bit_byte[of "to_unsigned sg p" "a + 7"] unat_to_unsigned[OF p]
      byte_lt_256[of p] a
    by simp
  have "push_bit a (byte c) < 2 ^ 17" "push_bit (a + 7) (byte p) < 2 ^ 17"
    using push_bit_byte_bound byte_lt_256 a by auto
  then have "push_bit a (byte c) + push_bit (a + 7) (byte p) < 2 ^ 32" by simp
  then show ?thesis using 1 2 by (simp add: unat_word_ariths)
qed

text \<open>
  The loop invariant: after the bytes \<open>pre\<close> of the word, the counter is their number
  less one and the accumulator is the reference accumulator over the positions seen.
\<close>

lemma hash_loop_mix:
  assumes "pre \<noteq> []" "NUL \<notin> set u" "length (pre @ u) < 2 ^ 32" "plain sg (pre @ u)"
    and "unat h = fold (mix_step (pre @ u)) [1..<length pre] seed"
  shows "\<exists>h'. hash_loop sg (last pre) (u @ NUL # rest) (of_nat (length pre - 1)) h
               = Some (h', of_nat (length (pre @ u) - 1))
             \<and> unat h' = fold (mix_step (pre @ u)) [1..<length (pre @ u)] seed"
  using assms
proof (induction u arbitrary: pre h)
  case Nil
  then show ?case by simp
next
  case (Cons c u)
  let ?w = "pre @ c # u"
  let ?n = "length pre"
  have n: "0 < ?n" "?n < 2 ^ 32" using Cons.prems by auto
  have len: "(of_nat (?n - 1) + 1 :: 32 word) = of_nat ?n"
    using n by (cases ?n) simp_all
  have m3: "unat (of_nat ?n mod 3 :: 32 word) = ?n mod 3"
    using n by (simp add: unat_mod unat_of_nat)
  have cp: "\<not> sg \<or> byte c < 128" "\<not> sg \<or> byte (last pre) < 128"
    using Cons.prems by (auto simp: plain_def)
  have wn: "?w ! ?n = c" by simp
  have wp: "?w ! (?n - 1) = last pre"
    using Cons.prems(1) by (simp add: nth_append last_conv_nth)
  define h2 where "h2 = h XOR (push_bit (?n mod 3) (to_unsigned sg c) +
                  push_bit (?n mod 3 + 7) (to_unsigned sg (last pre)))"
  have uh2: "unat h2 = mix_step ?w ?n (unat h)"
    unfolding h2_def mix_step_def wn wp
    by (simp add: unsigned_xor_eq unat_term[OF cp])
  have f: "unat h2 = fold (mix_step ((pre @ [c]) @ u)) [1..<length (pre @ [c])] seed"
    using uh2 Cons.prems(5) n by (simp add: Suc_le_eq)
  have "\<exists>h'. hash_loop sg (last (pre @ [c])) (u @ NUL # rest) (of_nat (length (pre @ [c]) - 1)) h2
               = Some (h', of_nat (length ((pre @ [c]) @ u) - 1))
             \<and> unat h' = fold (mix_step ((pre @ [c]) @ u)) [1..<length ((pre @ [c]) @ u)] seed"
    using Cons.prems by (intro Cons.IH[OF _ _ _ _ f]) auto
  moreover have "hash_loop sg (last pre) ((c # u) @ NUL # rest) (of_nat (?n - 1)) h
       = hash_loop sg c (u @ NUL # rest) (of_nat ?n) h2"
  proof -
    have cn: "c \<noteq> NUL" using Cons.prems(2) by auto
    have "hash_loop sg (last pre) (c # (u @ NUL # rest)) (of_nat (?n - 1)) h
        = hash_loop sg c (u @ NUL # rest) (of_nat (?n - 1) + 1)
            (h XOR (push_bit (unat ((of_nat (?n - 1) + 1 :: 32 word) mod 3)) (to_unsigned sg c) +
                    push_bit (unat ((of_nat (?n - 1) + 1 :: 32 word) mod 3) + 7)
                      (to_unsigned sg (last pre))))"
      using cn by (simp only: hash_loop.simps if_False Let_def)
    then show ?thesis unfolding len m3 h2_def by simp
  qed
  ultimately show ?case by simp
qed

lemma hash_eq_mix:
  assumes "w \<noteq> []" "NUL \<notin> set w" "length w < 2 ^ 32" "plain sg w"
  shows "\<exists>v. hash sg (w @ NUL # rest) = Some v
            \<and> unat v = (mix w XOR (length w - 1)) mod NBUCKETS"
proof -
  obtain c u where w: "w = c # u" using assms(1) by (cases w) auto
  let ?h0 = "of_nat NBUCKETS XOR push_bit 2 (to_unsigned sg c) :: 32 word"
  have c: "\<not> sg \<or> byte c < 128" using assms(4) w by (auto simp: plain_def)
  have "unat (push_bit 2 (to_unsigned sg c)) = push_bit 2 (byte c)"
    using unat_push_bit_byte[of "to_unsigned sg c" 2] unat_to_unsigned[OF c] byte_lt_256[of c]
    by simp
  then have h0: "unat ?h0
      = fold (mix_step ([c] @ u)) [1..<length [c]] (NBUCKETS XOR push_bit 2 (byte c))"
    by (simp add: unsigned_xor_eq NBUCKETS_def unat_of_nat)
  obtain h' where h':
    "hash_loop sg (last [c]) (u @ NUL # rest) (of_nat (length [c] - 1)) ?h0
       = Some (h', of_nat (length ([c] @ u) - 1))"
    "unat h' = fold (mix_step ([c] @ u)) [1..<length ([c] @ u)]
                 (NBUCKETS XOR push_bit 2 (byte c))"
    using hash_loop_mix[OF _ _ _ _ h0, of sg rest] assms w by auto
  have m: "unat h' = mix w" using h'(2) w by (simp add: mix_def)
  have l: "unat (of_nat (length u) :: 32 word) = length u"
    using assms(3) w by (simp add: unat_of_nat)
  have "hash sg (w @ NUL # rest) = Some ((h' XOR of_nat (length u)) mod of_nat NBUCKETS)"
    using h'(1) w by simp
  moreover have "unat ((h' XOR of_nat (length u)) mod of_nat NBUCKETS :: 32 word)
      = (mix w XOR (length w - 1)) mod NBUCKETS"
    using m l w by (simp add: unat_mod unsigned_xor_eq NBUCKETS_def unat_of_nat)
  ultimately show ?thesis by blast
qed

text \<open>
  C2, as stated, fails: the code XORs in \<^verbatim>\<open>len\<close>, which counts the bytes after the
  first, not the total length. For the one-letter word \<open>a\<close> the code yields 9875 and the
  specification's reference function 9874, whether \<^verbatim>\<open>char\<close> is signed or not.
\<close>

theorem hash_ref_counterexample:
  "map_option unat (hash False (''a'' @ [NUL])) = Some 9875
   \<and> map_option unat (hash True (''a'' @ [NUL])) = Some 9875
   \<and> hash_ref ''a'' = 9874"
proof -
  have 1: "hash False (''a'' @ [NUL]) = Some 9875" by code_simp
  have 2: "hash True (''a'' @ [NUL]) = Some 9875" by code_simp
  have 3: "hash_ref ''a'' = 9874"
    by (simp add: hash_ref_def mix_def mix_step_def byte_def NBUCKETS_def)
  show ?thesis unfolding 1 2 3 by simp
qed

text \<open>
  C2, amended: for every non-empty word \<open>w\<close> without a \<^const>\<open>NUL\<close>, shorter than
  \<open>2^32\<close> bytes and plain for the platform, stored in memory with its terminator and
  followed by any bytes \<open>rest\<close>, \<^const>\<open>hash\<close> returns the reference mixing of \<open>w\<close> with the
  number of bytes after the first (the length less one) XORed in, reduced modulo 10007. The
  result is below 10007 and does not depend on \<open>rest\<close>: equal words hash to the same
  bucket index.
\<close>

theorem hash_mixing:
  assumes "w \<noteq> []" "NUL \<notin> set w" "length w < 2 ^ 32" "plain sg w"
  shows "\<exists>v. hash sg (w @ NUL # rest) = Some v
            \<and> unat v = (mix w XOR (length w - 1)) mod NBUCKETS
            \<and> unat v < NBUCKETS
            \<and> hash sg (w @ NUL # rest') = Some v"
proof -
  obtain v where v: "hash sg (w @ NUL # rest) = Some v"
      "unat v = (mix w XOR (length w - 1)) mod NBUCKETS"
    using hash_eq_mix[OF assms] by blast
  obtain v' where v': "hash sg (w @ NUL # rest') = Some v'"
      "unat v' = (mix w XOR (length w - 1)) mod NBUCKETS"
    using hash_eq_mix[OF assms] by blast
  have "v' = v" using v(2) v'(2) by (simp add: word_unat_eq_iff)
  moreover have "unat v < NBUCKETS" using v(2) by (simp add: NBUCKETS_def)
  ultimately show ?thesis using v v' by simp
qed

theorem hash_mixing_witness:
  "''ab'' \<noteq> [] \<and> NUL \<notin> set ''ab'' \<and> length ''ab'' < (2::nat) ^ 32 \<and> plain True ''ab''
   \<and> (\<exists>v. hash True (''ab'' @ NUL # ''xyz'') = Some v
          \<and> unat v = (mix ''ab'' XOR (length ''ab'' - 1)) mod NBUCKETS
          \<and> unat v < NBUCKETS
          \<and> hash True (''ab'' @ NUL # []) = Some v)"
proof -
  have h: "''ab'' \<noteq> []" "NUL \<notin> set ''ab''" "length ''ab'' < (2::nat) ^ 32" "plain True ''ab''"
    by (simp_all add: NUL_def plain_def byte_def)
  show ?thesis using h hash_mixing[OF h, of "''xyz''" "[]"] by blast
qed

section \<open>The tokenizing loop\<close>

subsection \<open>The loop and its abstract view\<close>

lemma snap_iff: "snap m t \<longleftrightarrow> (\<exists>g. m = t @ NUL # g)"
proof
  assume "snap m t"
  then have a: "length t < length m" "take (length t) m = t" "m ! length t = NUL"
    by (simp_all add: snap_def)
  have "take (length t) m @ m ! length t # drop (Suc (length t)) m = m"
    using a(1) by (rule id_take_nth_drop[symmetric])
  then have "t @ NUL # drop (Suc (length t)) m = m" unfolding a(2) a(3) .
  then show "\<exists>g. m = t @ NUL # g" by (intro exI[of _ "drop (Suc (length t)) m"]) simp
next
  assume "\<exists>g. m = t @ NUL # g"
  then show "snap m t" by (auto simp: snap_def)
qed

lemma store_word_snap:
  assumes "p < length word"
  shows "store_word cnt word p st =
           (case cnt (take p word @ NUL # drop (Suc p) word) st of
              Inl e \<Rightarrow> Inl e | Inr st' \<Rightarrow> Inr (word[p := NUL], st'))"
  using assms by (simp add: store_word_def put_def upd_conv_take_nth_drop[symmetric])

lemma on_char_step:
  assumes "buf_inv word ptr cur"
  shows "\<exists>word' ptr'. buf_inv word' ptr' (snd (tok_step c cur)) \<and>
           (case fst (tok_step c cur) of
              None \<Rightarrow> on_char cnt c (word, ptr, st) = Inr (word', ptr', st)
            | Some t \<Rightarrow> (\<exists>m. snap m t \<and> on_char cnt c (word, ptr, st) =
                 (case cnt m st of Inl e \<Rightarrow> Inl e | Inr st' \<Rightarrow> Inr (word', ptr', st'))))"
proof (cases ptr)
  case None
  then have cur: "cur = None" and len: "length word = MAXWORD"
    using assms by (auto simp: buf_inv_def)
  show ?thesis
  proof (cases "isalpha c")
    case True
    have "buf_inv (word[0 := c]) (Some 1) (Some [c])"
      using len by (cases word) (auto simp: buf_inv_def MAXWORD_def)
    then show ?thesis using True None cur len
      by (auto simp: tok_step_def on_char_def put_def MAXWORD_def)
  next
    case False
    then show ?thesis using None cur assms
      by (auto simp: tok_step_def on_char_def)
  qed
next
  case (Some p)
  then have cur: "cur = Some (take p word)" and len: "length word = MAXWORD"
    and p: "0 < p" "p < MAXWORD"
    using assms by (auto simp: buf_inv_def)
  have lt: "length (take p word) = p" using p len by simp
  have emit: "\<exists>m. snap m (take p word) \<and> on_char cnt c (word, ptr, st) =
       (case cnt m st of Inl e \<Rightarrow> Inl e | Inr st' \<Rightarrow> Inr (word[p := NUL], None, st'))"
    if "\<not> isalpha c \<or> \<not> p < MAXWORD - 1"
  proof -
    have "snap (take p word @ NUL # drop (Suc p) word) (take p word)"
      by (auto simp: snap_iff)
    moreover have "on_char cnt c (word, ptr, st) =
       (case cnt (take p word @ NUL # drop (Suc p) word) st of
          Inl e \<Rightarrow> Inl e | Inr st' \<Rightarrow> Inr (word[p := NUL], None, st'))"
      using that Some p len
      by (auto simp: on_char_def store_word_snap split: sum.splits)
    ultimately show ?thesis by blast
  qed
  have binv: "buf_inv (word[p := NUL]) None None" using len by (simp add: buf_inv_def)
  show ?thesis
  proof (cases "isalpha c \<and> p < MAXWORD - 1")
    case True
    have "take (Suc p) (word[p := c]) = take p word @ [c]"
      using p len by (simp add: take_Suc_conv_app_nth)
    then have "buf_inv (word[p := c]) (Some (p + 1)) (Some (take p word @ [c]))"
      using True len by (auto simp: buf_inv_def)
    then show ?thesis using True Some cur lt p len
      by (auto simp: tok_step_def on_char_def put_def)
  next
    case False
    then have "tok_step c cur = (Some (take p word), None)"
      using cur lt by (auto simp: tok_step_def)
    then show ?thesis using emit False binv by auto
  qed
qed

lemma getc_loop_refines:
  assumes "buf_inv word ptr cur"
  shows "\<exists>ms word' ptr'. list_all2 snap ms (emitted cur cs) \<and> buf_inv word' ptr' (pending cur cs) \<and>
           getc_loop cnt cs (word, ptr, st) =
             (case foldE cnt ms st of Inl e \<Rightarrow> Inl e | Inr st' \<Rightarrow> Inr (word', ptr', st'))"
  using assms
proof (induction cs arbitrary: word ptr cur st)
  case Nil
  then show ?case by auto
next
  case (Cons c cs)
  obtain word1 ptr1 where 1: "buf_inv word1 ptr1 (snd (tok_step c cur))"
    and 2: "(case fst (tok_step c cur) of
              None \<Rightarrow> on_char cnt c (word, ptr, st) = Inr (word1, ptr1, st)
            | Some t \<Rightarrow> (\<exists>m. snap m t \<and> on_char cnt c (word, ptr, st) =
                 (case cnt m st of Inl e \<Rightarrow> Inl e | Inr st' \<Rightarrow> Inr (word1, ptr1, st'))))"
    using on_char_step[OF Cons.prems, of c cnt st] by blast
  show ?case
  proof (cases "fst (tok_step c cur)")
    case None
    obtain ms word' ptr' where ih: "list_all2 snap ms (emitted (snd (tok_step c cur)) cs)"
      "buf_inv word' ptr' (pending (snd (tok_step c cur)) cs)"
      "getc_loop cnt cs (word1, ptr1, st) =
             (case foldE cnt ms st of Inl e \<Rightarrow> Inl e | Inr st' \<Rightarrow> Inr (word', ptr', st'))"
      using Cons.IH[OF 1, of st] by blast
    show ?thesis using None 2 ih by auto
  next
    case (Some t)
    then obtain m where m: "snap m t" "on_char cnt c (word, ptr, st) =
                 (case cnt m st of Inl e \<Rightarrow> Inl e | Inr st' \<Rightarrow> Inr (word1, ptr1, st'))"
      using 2 by auto
    show ?thesis
    proof (cases "cnt m st")
      case (Inl e)
      obtain ms word' ptr' where ih: "list_all2 snap ms (emitted (snd (tok_step c cur)) cs)"
        "buf_inv word' ptr' (pending (snd (tok_step c cur)) cs)"
        using Cons.IH[OF 1, of st] by blast
      have "list_all2 snap (m # ms) (emitted cur (c # cs))" using Some m ih by simp
      moreover have "getc_loop cnt (c # cs) (word, ptr, st) =
         (case foldE cnt (m # ms) st of Inl e \<Rightarrow> Inl e | Inr st' \<Rightarrow> Inr (word', ptr', st'))"
        using m Inl by simp
      ultimately show ?thesis using ih(2) by (intro exI[of _ "m # ms"] exI[of _ word'] exI[of _ ptr']) simp
    next
      case (Inr st1)
      obtain ms word' ptr' where ih: "list_all2 snap ms (emitted (snd (tok_step c cur)) cs)"
        "buf_inv word' ptr' (pending (snd (tok_step c cur)) cs)"
        "getc_loop cnt cs (word1, ptr1, st1) =
             (case foldE cnt ms st1 of Inl e \<Rightarrow> Inl e | Inr st' \<Rightarrow> Inr (word', ptr', st'))"
        using Cons.IH[OF 1, of st1] by blast
      have "list_all2 snap (m # ms) (emitted cur (c # cs))" using Some m ih by simp
      moreover have "getc_loop cnt (c # cs) (word, ptr, st) =
         (case foldE cnt (m # ms) st of Inl e \<Rightarrow> Inl e | Inr st' \<Rightarrow> Inr (word', ptr', st'))"
        using m Inr ih(3) by simp
      ultimately show ?thesis using ih(2) by (intro exI[of _ "m # ms"] exI[of _ word'] exI[of _ ptr']) simp
    qed
  qed
qed

subsection \<open>Tokens\<close>

lemma isalpha_not_NUL: "isalpha c \<Longrightarrow> c \<noteq> NUL"
  by (auto simp: isalpha_def NUL_def byte_def)

lemma toks_Nil: "toks cur [] = flush cur"
  by (simp add: toks_def)

lemma toks_Cons:
  "toks cur (c # cs) =
     (case fst (tok_step c cur) of None \<Rightarrow> [] | Some t \<Rightarrow> [t]) @ toks (snd (tok_step c cur)) cs"
  by (simp add: toks_def)

lemma tok_step_ok:
  assumes "cur_ok cur"
  shows "cur_ok (snd (tok_step c cur))"
    and "fst (tok_step c cur) = Some t \<Longrightarrow> good_token t"
  using assms
  by (auto simp: tok_step_def cur_ok_def good_token_def MAXWORD_def split: option.splits if_splits)

lemma emitted_good: "cur_ok cur \<Longrightarrow> t \<in> set (emitted cur cs) \<Longrightarrow> good_token t"
proof (induction cs arbitrary: cur)
  case Nil
  then show ?case by simp
next
  case (Cons c cs)
  then show ?case using tok_step_ok[OF Cons.prems(1), of c]
    by (auto split: option.splits)
qed

lemma pending_ok: "cur_ok cur \<Longrightarrow> cur_ok (pending cur cs)"
  by (induction cs arbitrary: cur) (auto simp: tok_step_ok)

lemma toks_good: "cur_ok cur \<Longrightarrow> t \<in> set (toks cur cs) \<Longrightarrow> good_token t"
  using emitted_good[of cur t cs] pending_ok[of cur cs]
  by (auto simp: toks_def flush_def cur_ok_def split: option.splits)

lemma emitted_append: "emitted cur (a @ b) = emitted cur a @ emitted (pending cur a) b"
  by (induction a arbitrary: cur) auto

lemma pending_append: "pending cur (a @ b) = pending (pending cur a) b"
  by (induction a arbitrary: cur) auto

lemma toks_append: "toks cur (a @ b) = emitted cur a @ toks (pending cur a) b"
  by (simp add: toks_def emitted_append pending_append)

lemma pending_last_nonalpha: "a \<noteq> [] \<Longrightarrow> \<not> isalpha (last a) \<Longrightarrow> pending cur a = None"
proof (induction a arbitrary: cur)
  case Nil
  then show ?case by simp
next
  case (Cons c a)
  then show ?case by (cases a) (auto simp: tok_step_def)
qed

lemma toks_restart:
  assumes "cur = None \<or> b = [] \<or> \<not> isalpha (hd b)"
  shows "toks cur b = flush cur @ toks None b"
proof (cases b)
  case Nil
  then show ?thesis by (simp add: toks_def flush_def)
next
  case (Cons c b')
  show ?thesis
  proof (cases cur)
    case None
    then show ?thesis by (simp add: flush_def)
  next
    case (Some w)
    then have "\<not> isalpha c" using assms Cons by simp
    then show ?thesis using Some Cons by (simp add: toks_Cons tok_step_def flush_def)
  qed
qed

lemma toks_split:
  assumes "a = [] \<or> b = [] \<or> \<not> isalpha (last a) \<or> \<not> isalpha (hd b)"
  shows "toks None (a @ b) = toks None a @ toks None b"
proof -
  have "pending None a = None \<or> b = [] \<or> \<not> isalpha (hd b)"
    using assms pending_last_nonalpha[of a None] by (cases "a = []") auto
  then have "toks (pending None a) b = flush (pending None a) @ toks None b"
    by (rule toks_restart)
  then show ?thesis by (simp add: toks_append) (simp add: toks_def)
qed

lemma fields_nonempty: "fields cs \<noteq> []"
  by (induction cs) auto

lemma toks_fields:
  assumes "cur_ok cur"
    and "\<forall>r \<in> set ((cur_word cur @ hd (fields cs)) # tl (fields cs)). length r < MAXWORD"
  shows "toks cur cs = filter (\<lambda>f. f \<noteq> []) ((cur_word cur @ hd (fields cs)) # tl (fields cs))"
  using assms
proof (induction cs arbitrary: cur)
  case Nil
  then show ?case
    by (auto simp: toks_def flush_def cur_word_def cur_ok_def good_token_def split: option.splits)
next
  case (Cons c cs)
  obtain f fs where F: "fields cs = f # fs" using fields_nonempty[of cs] by (cases "fields cs") auto
  show ?case
  proof (cases "isalpha c")
    case True
    show ?thesis
    proof (cases cur)
      case None
      have ok: "cur_ok (Some [c])" using True by (simp add: cur_ok_def good_token_def MAXWORD_def)
      have "toks (Some [c]) cs = filter (\<lambda>f. f \<noteq> []) ((cur_word (Some [c]) @ hd (fields cs)) # tl (fields cs))"
        using Cons.prems(2) None True F by (intro Cons.IH[OF ok]) (auto simp: cur_word_def)
      then show ?thesis using None True F by (simp add: toks_Cons tok_step_def cur_word_def)
    next
      case (Some w)
      have lw: "length w < MAXWORD - 1" using Cons.prems(2) Some True F by (auto simp: cur_word_def)
      have ok: "cur_ok (Some (w @ [c]))" using Cons.prems(1) Some True lw
        by (auto simp: cur_ok_def good_token_def)
      have "toks (Some (w @ [c])) cs = filter (\<lambda>f. f \<noteq> []) ((cur_word (Some (w @ [c])) @ hd (fields cs)) # tl (fields cs))"
        using Cons.prems(2) Some True F by (intro Cons.IH[OF ok]) (auto simp: cur_word_def)
      then show ?thesis using Some True F lw by (simp add: toks_Cons tok_step_def cur_word_def)
    qed
  next
    case False
    have "toks None cs = filter (\<lambda>f. f \<noteq> []) ((cur_word None @ hd (fields cs)) # tl (fields cs))"
      using Cons.prems(2) False F by (intro Cons.IH) (auto simp: cur_word_def cur_ok_def)
    then show ?thesis using False F Cons.prems(1)
      by (auto simp: toks_Cons tok_step_def cur_word_def cur_ok_def good_token_def split: option.splits)
  qed
qed

lemma toks_runs:
  assumes "\<forall>r \<in> set (runs cs). length r < MAXWORD"
  shows "toks None cs = runs cs"
proof -
  obtain f fs where F: "fields cs = f # fs" using fields_nonempty[of cs] by (cases "fields cs") auto
  have "\<forall>r \<in> set (fields cs). length r < MAXWORD"
    using assms by (auto simp: runs_def MAXWORD_def)
  then show ?thesis using toks_fields[of None cs] F by (simp add: cur_word_def cur_ok_def runs_def)
qed

lemma accumulate:
  assumes "\<forall>c \<in> set cs. isalpha c" "length w + length cs \<le> MAXWORD - 1"
  shows "emitted (Some w) cs = [] \<and> pending (Some w) cs = Some (w @ cs)"
  using assms
proof (induction cs arbitrary: w)
  case Nil
  then show ?case by simp
next
  case (Cons c cs)
  then have "emitted (Some (w @ [c])) cs = [] \<and> pending (Some (w @ [c])) cs = Some ((w @ [c]) @ cs)"
    by (intro Cons.IH) auto
  then show ?case using Cons.prems by (simp add: tok_step_def)
qed

lemma accumulate_None:
  assumes "\<forall>c \<in> set cs. isalpha c" "length cs \<le> MAXWORD - 1" "cs \<noteq> []"
  shows "emitted None cs = [] \<and> pending None cs = Some cs"
proof -
  obtain c cs' where cs: "cs = c # cs'" using assms(3) by (cases cs) auto
  then show ?thesis using assms accumulate[of cs' "[c]"] by (simp add: tok_step_def)
qed

lemma chop:
  assumes "\<forall>c \<in> set r. isalpha c" "MAXWORD \<le> length r"
  shows "emitted None (r @ rest) = take (MAXWORD - 1) r # emitted None (drop MAXWORD r @ rest)"
    and "pending None (r @ rest) = pending None (drop MAXWORD r @ rest)"
proof -
  let ?a = "take (MAXWORD - 1) r"
  let ?c = "r ! (MAXWORD - 1)"
  let ?d = "drop MAXWORD r"
  have r: "r = ?a @ ?c # ?d"
    using assms(2) id_take_nth_drop[of "MAXWORD - 1" r] by (simp add: MAXWORD_def)
  have a: "\<forall>c \<in> set ?a. isalpha c" using assms(1) by (auto dest: in_set_takeD)
  have la: "length ?a = MAXWORD - 1" using assms(2) by simp
  have ne: "?a \<noteq> []" using la by (auto simp: MAXWORD_def)
  have c: "isalpha ?c" using assms by (auto simp: MAXWORD_def)
  have acc: "emitted None ?a = [] \<and> pending None ?a = Some ?a"
    using accumulate_None[OF a _ ne] la by simp
  have e: "emitted None (?a @ ?c # ?d @ rest) = ?a # emitted None (?d @ rest)"
    using acc c la by (simp add: emitted_append tok_step_def)
  have p: "pending None (?a @ ?c # ?d @ rest) = pending None (?d @ rest)"
    using acc c la by (simp add: pending_append tok_step_def)
  have eq: "r @ rest = ?a @ ?c # ?d @ rest" using r by (metis append.assoc append_Cons)
  show "emitted None (r @ rest) = take (MAXWORD - 1) r # emitted None (drop MAXWORD r @ rest)"
    by (subst eq) (rule e)
  show "pending None (r @ rest) = pending None (drop MAXWORD r @ rest)"
    by (subst eq) (rule p)
qed

lemma toks_9000:
  assumes "\<forall>c \<in> set r. isalpha c" "length r = 9000"
  shows "toks None r = [take 8191 r, drop 8192 r]"
proof -
  have d: "\<forall>c \<in> set (drop MAXWORD r). isalpha c" using assms(1) by (auto dest: in_set_dropD)
  have ld: "length (drop MAXWORD r) = 808" using assms(2) by (simp add: MAXWORD_def)
  then have ne: "drop MAXWORD r \<noteq> []" by auto
  have acc: "emitted None (drop MAXWORD r) = [] \<and> pending None (drop MAXWORD r) = Some (drop MAXWORD r)"
    using accumulate_None[OF d _ ne] ld by (simp add: MAXWORD_def)
  have "toks None (r @ []) = take (MAXWORD - 1) r # toks None (drop MAXWORD r @ [])"
    using chop[of r "[]"] assms by (simp add: toks_def MAXWORD_def)
  then show ?thesis using acc by (simp add: toks_def flush_def MAXWORD_def)
qed

subsection \<open>From the loop to the tokens\<close>

lemma foldE_append:
  "foldE f (xs @ ys) s = (case foldE f xs s of Inl e \<Rightarrow> Inl e | Inr s' \<Rightarrow> foldE f ys s')"
  by (induction xs arbitrary: s) (auto split: sum.splits)

lemma foldE_record: "foldE record_call ms tr = Inr (tr @ ms)"
  by (induction ms arbitrary: tr) (auto simp: record_call_def)

lemma count_stream_refines:
  assumes "length word0 = MAXWORD"
  shows "\<exists>ms. list_all2 snap ms (toks None bytes) \<and> count_stream cnt bytes word0 st = foldE cnt ms st"
proof -
  have inv0: "buf_inv word0 None None" using assms by (simp add: buf_inv_def)
  obtain ms word' ptr' where g: "list_all2 snap ms (emitted None bytes)"
    "buf_inv word' ptr' (pending None bytes)"
    "getc_loop cnt bytes (word0, None, st) =
       (case foldE cnt ms st of Inl e \<Rightarrow> Inl e | Inr st' \<Rightarrow> Inr (word', ptr', st'))"
    using getc_loop_refines[OF inv0, of bytes cnt st] by blast
  show ?thesis
  proof (cases ptr')
    case None
    then have "pending None bytes = None" using g(2) by (simp add: buf_inv_def)
    then have "list_all2 snap ms (toks None bytes)" using g(1) by (simp add: toks_def flush_def)
    moreover have "count_stream cnt bytes word0 st = foldE cnt ms st"
      using g(3) None by (simp add: count_stream_def split: sum.splits)
    ultimately show ?thesis by blast
  next
    case (Some p)
    then have p: "pending None bytes = Some (take p word')" "p < length word'"
      using g(2) by (auto simp: buf_inv_def)
    let ?m = "take p word' @ NUL # drop (Suc p) word'"
    have "snap ?m (take p word')" by (auto simp: snap_iff)
    then have "list_all2 snap (ms @ [?m]) (toks None bytes)"
      using g(1) p(1) by (simp add: toks_def flush_def list_all2_appendI)
    moreover have "count_stream cnt bytes word0 st = foldE cnt (ms @ [?m]) st"
      using g(3) Some p(2)
      by (simp add: count_stream_def foldE_append store_word_snap split: sum.splits)
    ultimately show ?thesis by blast
  qed
qed

lemma snap_c_str:
  assumes "snap m t" "good_token t"
  shows "c_str m = t" "NUL \<in> set m"
proof -
  obtain g where m: "m = t @ NUL # g" using assms(1) by (auto simp: snap_iff)
  have "\<forall>c \<in> set t. c \<noteq> NUL" using assms(2) isalpha_not_NUL by (auto simp: good_token_def)
  then show "c_str m = t" using m by (simp add: c_str_def takeWhile_append2)
  show "NUL \<in> set m" using m by simp
qed

lemma snaps_c_str:
  "list_all2 snap ms ts \<Longrightarrow> \<forall>t \<in> set ts. good_token t \<Longrightarrow> map c_str ms = ts \<and> (\<forall>m \<in> set ms. NUL \<in> set m)"
  by (induction rule: list_all2_induct) (auto simp: snap_c_str)

lemma toks_None_good: "t \<in> set (toks None bytes) \<Longrightarrow> good_token t"
  by (rule toks_good[of None]) (simp_all add: cur_ok_def)

lemma calls_toks:
  assumes "length word0 = MAXWORD"
  shows "\<exists>ms. calls word0 bytes = Inr ms \<and> map c_str ms = toks None bytes
            \<and> (\<forall>m \<in> set ms. NUL \<in> set m)"
proof -
  obtain ms where ms: "list_all2 snap ms (toks None bytes)"
    "count_stream record_call bytes word0 [] = foldE record_call ms []"
    using count_stream_refines[OF assms, of bytes record_call "[]"] by blast
  have "calls word0 bytes = Inr ms" using ms(2) by (simp add: calls_def foldE_record)
  then show ?thesis using snaps_c_str[OF ms(1)] toks_None_good by blast
qed

lemma tokens_toks: "length word0 = MAXWORD \<Longrightarrow> tokens word0 bytes = Inr (toks None bytes)"
  using calls_toks[of word0 bytes] by (auto simp: tokens_def)

lemma hash_loop_terminated:
  "NUL \<notin> set u \<Longrightarrow>
     \<exists>r. hash_loop sg prev (u @ NUL # g) len h = Some r \<and> hash_loop sg prev (u @ [NUL]) len h = Some r"
  by (induction u arbitrary: prev len h) (auto simp: Let_def)

lemma hash_terminated:
  assumes "t \<noteq> []" "NUL \<notin> set t"
  shows "\<exists>v. hash sg (t @ NUL # g) = Some v \<and> hash sg (t @ [NUL]) = Some v"
proof -
  obtain c u where t: "t = c # u" using assms(1) by (cases t) auto
  obtain r where "hash_loop sg c (u @ NUL # g) 0 (of_nat NBUCKETS XOR push_bit 2 (to_unsigned sg c)) = Some r"
    "hash_loop sg c (u @ [NUL]) 0 (of_nat NBUCKETS XOR push_bit 2 (to_unsigned sg c)) = Some r"
    using hash_loop_terminated[of u sg c g 0 "of_nat NBUCKETS XOR push_bit 2 (to_unsigned sg c)"]
      assms(2) t by auto
  then show ?thesis using t by (auto split: prod.splits)
qed

lemma strcmp_terminated:
  "NUL \<notin> set t \<Longrightarrow> strcmp (t @ NUL # g) e = strcmp (t @ [NUL]) e"
proof (induction t arbitrary: e)
  case Nil
  then show ?case by (cases e) auto
next
  case (Cons a t)
  then show ?case by (cases e) auto
qed

lemma strcmp_wellformed:
  "NUL \<notin> set t \<Longrightarrow> NUL \<in> set e \<Longrightarrow> strcmp (t @ NUL # g) e \<noteq> None"
proof (induction t arbitrary: e)
  case Nil
  then show ?case by (cases e) auto
next
  case (Cons a t)
  then show ?case by (cases e) auto
qed

lemma strdup_terminated: "NUL \<notin> set t \<Longrightarrow> strdup (t @ NUL # g) = Some (t @ [NUL])"
  by (induction t) auto

lemma hash_empty_string: "hash sg [NUL] = None"
  by simp

subsection \<open>The claims about the tokenizer\<close>

lemma fields_hd: "hd (fields cs) = takeWhile isalpha cs"
  by (induction cs) auto

lemma fields_tl:
  "tl (fields cs) = (case dropWhile isalpha cs of [] \<Rightarrow> [] | x # rest \<Rightarrow> fields rest)"
  by (induction cs) auto

lemma runs_unfold:
  "runs cs =
     (case dropWhile (\<lambda>c. \<not> isalpha c) cs of
        [] \<Rightarrow> []
      | x # xs \<Rightarrow> takeWhile isalpha (x # xs) # runs (dropWhile isalpha (x # xs)))"
proof (induction cs)
  case Nil
  then show ?case by (simp add: runs_def)
next
  case (Cons c cs)
  show ?case
  proof (cases "isalpha c")
    case False
    then show ?thesis using Cons by (simp add: runs_def)
  next
    case True
    have "filter (\<lambda>f. f \<noteq> []) (tl (fields cs)) = runs (dropWhile isalpha cs)"
    proof (cases "dropWhile isalpha cs")
      case Nil
      show ?thesis unfolding fields_tl Nil runs_def by simp
    next
      case (Cons x rest)
      then have "\<not> isalpha x" using hd_dropWhile[of isalpha cs] by auto
      then show ?thesis using Cons by (simp add: fields_tl runs_def)
    qed
    then show ?thesis using True by (simp add: runs_def fields_hd)
  qed
qed

lemma runs_nonalpha: "\<forall>c \<in> set cs. \<not> isalpha c \<Longrightarrow> runs cs = []"
  by (induction cs) (auto simp: runs_def)

lemma runs_hello: "runs ''Hello, World!'' = [''Hello'', ''World'']"
  by (simp add: runs_def isalpha_def byte_def)

lemma tokens_9000:
  assumes "length word0 = MAXWORD" "\<forall>c \<in> set r. isalpha c" "length r = 9000"
  shows "tokens word0 r = Inr [take 8191 r, drop 8192 r]"
  using assms by (simp add: tokens_toks toks_9000)

lemma tokens_chop:
  assumes "length word0 = MAXWORD" "\<forall>c \<in> set r. isalpha c" "MAXWORD \<le> length r"
    "before = [] \<or> \<not> isalpha (last before)"
  shows "tokens word0 (before @ r @ after)
          = Inr (toks None before @ take (MAXWORD - 1) r # toks None (drop MAXWORD r @ after))"
proof -
  have p: "pending None before = None"
    using assms(4) pending_last_nonalpha[of before None] by (cases "before = []") auto
  have "toks None (before @ r @ after) = emitted None before @ toks None (r @ after)"
    using p by (simp add: toks_append)
  also have "toks None (r @ after) = take (MAXWORD - 1) r # toks None (drop MAXWORD r @ after)"
    using chop[OF assms(2,3), of after] by (simp add: toks_def)
  also have "emitted None before = toks None before" using p by (simp add: toks_def flush_def)
  finally show ?thesis using assms(1) by (simp add: tokens_toks)
qed

text \<open>
  C3, as stated, fails: of a run of 9000 letters \<open>a\<close> the loop passes two words to
  \<^verbatim>\<open>count\<close>, of 8191 and 808 bytes, not of 8192 and 808. The buffer of
  \<^const>\<open>MAXWORD\<close> bytes keeps its last byte for the terminator, and the two tokens hold
  8999 of the 9000 bytes.
\<close>

theorem long_run_counterexample:
  "map_sum id (map length) (tokens (replicate MAXWORD NUL) (replicate 9000 (CHR ''a'')))
     = Inr [8191, 808]"
proof -
  have "tokens (replicate MAXWORD NUL) (replicate 9000 (CHR ''a''))
          = Inr [take 8191 (replicate 9000 (CHR ''a'')), drop 8192 (replicate 9000 (CHR ''a''))]"
    by (rule tokens_9000) (simp_all add: isalpha_def byte_def)
  then show ?thesis by simp
qed

text \<open>
  C3, amended: when the word in progress holds 8191 bytes (\<^const>\<open>MAXWORD\<close> less one, the
  buffer keeping its last byte for the terminator) and a further alphabetic byte is read,
  the word is emitted at once as a token of length 8191, whatever follows, and
  accumulation restarts later in the stream; no token is longer than 8191 bytes, and no
  stream is rejected. So a run \<open>r\<close> of 9000 consecutive alphabetic bytes produces exactly
  two tokens: the first 8191 bytes of the run, and a non-empty end of the run.
\<close>

theorem long_run_chopped:
  assumes "length word0 = MAXWORD" and "\<forall>c \<in> set r. isalpha c"
  shows "(length r = 9000 \<longrightarrow>
            (\<exists>t2. tokens word0 r = Inr [take 8191 r, t2]
                 \<and> length (take 8191 r) = 8191
                 \<and> t2 \<noteq> [] \<and> (\<exists>d. drop 8191 r = d @ t2)))
       \<and> (MAXWORD \<le> length r \<longrightarrow> (before = [] \<or> \<not> isalpha (last before)) \<longrightarrow>
            (\<exists>tb rest d sfx. tokens word0 before = Inr tb
                  \<and> tokens word0 (before @ r @ after) = Inr (tb @ take (MAXWORD - 1) r # rest)
                  \<and> length (take (MAXWORD - 1) r) = 8191
                  \<and> drop (MAXWORD - 1) r @ after = d @ sfx
                  \<and> tokens word0 sfx = Inr rest))
       \<and> (\<exists>ts. tokens word0 bytes = Inr ts \<and> (\<forall>t \<in> set ts. length t \<le> 8191))"
proof (intro conjI impI)
  assume l: "length r = 9000"
  have t: "tokens word0 r = Inr [take 8191 r, drop 8192 r]"
    using assms l by (simp add: tokens_9000)
  have "drop 8191 r = [r ! 8191] @ drop 8192 r"
    using l Cons_nth_drop_Suc[of 8191 r] by simp
  moreover have "drop 8192 r \<noteq> []" using l by simp
  moreover have "length (take 8191 r) = 8191" using l by simp
  ultimately show "\<exists>t2. tokens word0 r = Inr [take 8191 r, t2]
                 \<and> length (take 8191 r) = 8191
                 \<and> t2 \<noteq> [] \<and> (\<exists>d. drop 8191 r = d @ t2)"
    using t by blast
next
  assume a: "MAXWORD \<le> length r" "before = [] \<or> \<not> isalpha (last before)"
  have 1: "tokens word0 (before @ r @ after)
          = Inr (toks None before @ take (MAXWORD - 1) r # toks None (drop MAXWORD r @ after))"
    using assms a by (rule tokens_chop)
  have 2: "length (take (MAXWORD - 1) r) = 8191" using a(1) by (simp add: MAXWORD_def)
  have "drop (MAXWORD - 1) r = [r ! (MAXWORD - 1)] @ drop MAXWORD r"
    using a(1) Cons_nth_drop_Suc[of "MAXWORD - 1" r] by (simp add: MAXWORD_def)
  then have 3: "drop (MAXWORD - 1) r @ after = [r ! (MAXWORD - 1)] @ (drop MAXWORD r @ after)"
    by simp
  have 4: "tokens word0 before = Inr (toks None before)"
    "tokens word0 (drop MAXWORD r @ after) = Inr (toks None (drop MAXWORD r @ after))"
    using assms(1) by (simp_all add: tokens_toks)
  show "\<exists>tb rest d sfx. tokens word0 before = Inr tb
                  \<and> tokens word0 (before @ r @ after) = Inr (tb @ take (MAXWORD - 1) r # rest)
                  \<and> length (take (MAXWORD - 1) r) = 8191
                  \<and> drop (MAXWORD - 1) r @ after = d @ sfx
                  \<and> tokens word0 sfx = Inr rest"
    using 1 2 3 4 by blast
next
  have "tokens word0 bytes = Inr (toks None bytes)" using assms(1) by (simp add: tokens_toks)
  moreover have "\<forall>t \<in> set (toks None bytes). length t \<le> 8191"
    using toks_None_good[of _ bytes] by (auto simp: good_token_def MAXWORD_def)
  ultimately show "\<exists>ts. tokens word0 bytes = Inr ts \<and> (\<forall>t \<in> set ts. length t \<le> 8191)"
    by blast
qed

theorem long_run_chopped_witness:
  "length (replicate MAXWORD NUL) = MAXWORD
   \<and> list_all isalpha (replicate 9000 (CHR ''a''))
   \<and> (\<exists>t2. tokens (replicate MAXWORD NUL) (replicate 9000 (CHR ''a''))
              = Inr [replicate 8191 (CHR ''a''), t2]
          \<and> t2 \<noteq> [])"
proof -
  have h: "length (replicate MAXWORD NUL) = MAXWORD"
    "\<forall>c \<in> set (replicate 9000 (CHR ''a'')). isalpha c"
    by (simp_all add: isalpha_def byte_def)
  have "\<exists>t2. tokens (replicate MAXWORD NUL) (replicate 9000 (CHR ''a''))
              = Inr [take 8191 (replicate 9000 (CHR ''a'')), t2] \<and> t2 \<noteq> []"
    using long_run_chopped[OF h, of "[]" "[]" "[]"] by auto
  then show ?thesis using h by (simp add: list_all_iff)
qed

text \<open>
  C7: for every input byte stream in which each maximal alphabetic run is shorter than
  \<^const>\<open>MAXWORD\<close>, the words passed to \<^verbatim>\<open>count\<close> are exactly the maximal runs of
  alphabetic bytes, in stream order, bytes unchanged; separators are never passed, and the
  end of the stream flushes the word in progress. The empty stream and a stream without
  letters give no token, and \<open>Hello, World!\<close> gives \<open>Hello\<close> and \<open>World\<close>.
\<close>

theorem tokenizer_maximal_runs:
  assumes "length word0 = MAXWORD"
  shows "((\<forall>r \<in> set (runs bytes). length r < MAXWORD) \<longrightarrow> tokens word0 bytes = Inr (runs bytes))
       \<and> tokens word0 [] = Inr []
       \<and> ((\<forall>c \<in> set bytes. \<not> isalpha c) \<longrightarrow> tokens word0 bytes = Inr [])
       \<and> tokens word0 ''Hello, World!'' = Inr [''Hello'', ''World'']"
proof (intro conjI impI)
  assume "\<forall>r \<in> set (runs bytes). length r < MAXWORD"
  then show "tokens word0 bytes = Inr (runs bytes)"
    using assms by (simp add: tokens_toks toks_runs)
next
  show "tokens word0 [] = Inr []"
    using assms by (simp add: tokens_toks toks_def flush_def)
next
  assume a: "\<forall>c \<in> set bytes. \<not> isalpha c"
  then have "runs bytes = []" by (rule runs_nonalpha)
  then show "tokens word0 bytes = Inr []"
    using assms toks_runs[of bytes] by (simp add: tokens_toks)
next
  have "\<forall>r \<in> set (runs ''Hello, World!''). length r < MAXWORD"
    unfolding runs_hello by (simp add: MAXWORD_def)
  then show "tokens word0 ''Hello, World!'' = Inr [''Hello'', ''World'']"
    using assms toks_runs[of "''Hello, World!''"] by (simp add: tokens_toks runs_hello)
qed

theorem tokenizer_maximal_runs_witness:
  "length (replicate MAXWORD NUL) = MAXWORD
   \<and> list_all (\<lambda>r. length r < MAXWORD) (runs ''the cat, the dog'')
   \<and> tokens (replicate MAXWORD NUL) ''the cat, the dog'' = Inr [''the'', ''cat'', ''the'', ''dog'']"
proof -
  have h: "length (replicate MAXWORD NUL) = MAXWORD" by simp
  have r: "runs ''the cat, the dog'' = [''the'', ''cat'', ''the'', ''dog'']"
    by (simp add: runs_def isalpha_def byte_def)
  have s: "\<forall>r \<in> set (runs ''the cat, the dog''). length r < MAXWORD"
    unfolding r by (simp add: MAXWORD_def)
  have "tokens (replicate MAXWORD NUL) ''the cat, the dog'' = Inr (runs ''the cat, the dog'')"
    using s tokenizer_maximal_runs[OF h, of "''the cat, the dog''"] by blast
  then show ?thesis using h s r by (simp add: list_all_iff)
qed

lemma list_all2_witness: "list_all2 P xs ys \<Longrightarrow> x \<in> set xs \<Longrightarrow> \<exists>y \<in> set ys. P x y"
  by (induction rule: list_all2_induct) auto

text \<open>
  C10: every word that \<^verbatim>\<open>count_all_words\<close> passes to \<^verbatim>\<open>count\<close> is a
  NUL-terminated string, not empty, of at most 8191 alphabetic bytes. So
  \<^const>\<open>hash\<close> succeeds on the bytes of the string alone, terminator included, with the
  value it has on the whole buffer: it reads no byte past the terminator. \<^const>\<open>strcmp\<close>
  too depends on the bytes of the string only, and returns a result against every
  terminated entry word. On the empty string \<^const>\<open>hash\<close> steps over the terminator and
  asks for a byte after it.
\<close>

theorem words_passed_to_count:
  assumes "length word0 = MAXWORD"
  shows "(\<exists>ms. calls word0 bytes = Inr ms \<and>
           (\<forall>m \<in> set ms.
              NUL \<in> set m \<and> c_str m \<noteq> [] \<and> length (c_str m) \<le> 8191
              \<and> (\<forall>c \<in> set (c_str m). isalpha c)
              \<and> (\<exists>v. hash sg (c_str m @ [NUL]) = Some v \<and> hash sg m = Some v)
              \<and> (\<forall>e. strcmp m e = strcmp (c_str m @ [NUL]) e)
              \<and> (\<forall>e. NUL \<in> set e \<longrightarrow> strcmp m e \<noteq> None)))
       \<and> hash sg [NUL] = None"
proof -
  obtain ms where g: "list_all2 snap ms (toks None bytes)"
    "count_stream record_call bytes word0 [] = foldE record_call ms []"
    using count_stream_refines[OF assms, of bytes record_call "[]"] by blast
  have c: "calls word0 bytes = Inr ms" using g(2) by (simp add: calls_def foldE_record)
  have "NUL \<in> set m \<and> c_str m \<noteq> [] \<and> length (c_str m) \<le> 8191
              \<and> (\<forall>c \<in> set (c_str m). isalpha c)
              \<and> (\<exists>v. hash sg (c_str m @ [NUL]) = Some v \<and> hash sg m = Some v)
              \<and> (\<forall>e. strcmp m e = strcmp (c_str m @ [NUL]) e)
              \<and> (\<forall>e. NUL \<in> set e \<longrightarrow> strcmp m e \<noteq> None)" if mm: "m \<in> set ms" for m
  proof -
    obtain t where t: "t \<in> set (toks None bytes)" "snap m t"
      using list_all2_witness[OF g(1) mm] by blast
    have gt: "good_token t" using t(1) by (rule toks_None_good)
    obtain rest where m: "m = t @ NUL # rest" using t(2) by (auto simp: snap_iff)
    have cs: "c_str m = t" "NUL \<in> set m" using snap_c_str[OF t(2) gt] by auto
    have nn: "NUL \<notin> set t" using gt isalpha_not_NUL by (auto simp: good_token_def)
    have ne: "t \<noteq> []" using gt by (simp add: good_token_def)
    show ?thesis
      using cs gt hash_terminated[OF ne nn, of sg rest]
        strcmp_terminated[OF nn, of rest] strcmp_wellformed[OF nn, of _ rest] m
      by (auto simp: good_token_def MAXWORD_def)
  qed
  then have a: "\<forall>m \<in> set ms.
              NUL \<in> set m \<and> c_str m \<noteq> [] \<and> length (c_str m) \<le> 8191
              \<and> (\<forall>c \<in> set (c_str m). isalpha c)
              \<and> (\<exists>v. hash sg (c_str m @ [NUL]) = Some v \<and> hash sg m = Some v)
              \<and> (\<forall>e. strcmp m e = strcmp (c_str m @ [NUL]) e)
              \<and> (\<forall>e. NUL \<in> set e \<longrightarrow> strcmp m e \<noteq> None)"
    by blast
  have e: "hash sg [NUL] = None" by simp
  from c a e show ?thesis by blast
qed

theorem words_passed_to_count_witness:
  "length (replicate MAXWORD NUL) = MAXWORD
   \<and> (\<exists>ms. calls (replicate MAXWORD NUL) ''to be, or not'' = Inr ms \<and>
           (\<forall>m \<in> set ms.
              NUL \<in> set m \<and> c_str m \<noteq> [] \<and> length (c_str m) \<le> 8191
              \<and> (\<forall>c \<in> set (c_str m). isalpha c)
              \<and> (\<exists>v. hash True (c_str m @ [NUL]) = Some v \<and> hash True m = Some v)))"
proof -
  have h: "length (replicate MAXWORD NUL) = MAXWORD" by simp
  show ?thesis
    using h words_passed_to_count[OF h, of "''to be, or not''" True] by blast
qed

section \<open>The table and \<^verbatim>\<open>count\<close>\<close>

subsection \<open>The scan of a chain\<close>

lemma find_entry_sound:
  assumes "find_entry hp0 w0 ep0 = Some y0"
  shows "(case y0 of Inr (Some a) \<Rightarrow> first_match hp0 w0 ep0 a | Inr None \<Rightarrow> absent hp0 w0 ep0
          | Inl e \<Rightarrow> True)"
proof (rule find_entry.raw_induct[where P = "\<lambda>hp w ep y.
    (case y of Inr (Some a) \<Rightarrow> first_match hp w ep a | Inr None \<Rightarrow> absent hp w ep
     | Inl e \<Rightarrow> True)"])
  show "find_entry hp0 w0 ep0 = Some y0" by (rule assms)
next
  fix find :: "entry list \<Rightarrow> char list \<Rightarrow> addr option \<Rightarrow> (error + addr option) option"
    and hp w ep y
  assume ih: "\<And>hp w ep y. find hp w ep = Some y \<Longrightarrow>
      (case y of Inr (Some a) \<Rightarrow> first_match hp w ep a | Inr None \<Rightarrow> absent hp w ep
       | Inl e \<Rightarrow> True)"
    and eq: "(case ep of
        None \<Rightarrow> Some (Inr None)
      | Some a \<Rightarrow>
          if a < length hp then
            (case strcmp w (e_word (hp ! a)) of
               None \<Rightarrow> Some (Inl Out_of_bounds)
             | Some r \<Rightarrow>
                 if r = 0 then Some (Inr (Some a))
                 else find hp w (e_next (hp ! a)))
          else Some (Inl Bad_pointer)) = Some y"
  show "(case y of Inr (Some a) \<Rightarrow> first_match hp w ep a | Inr None \<Rightarrow> absent hp w ep
         | Inl e \<Rightarrow> True)"
  proof (cases ep)
    case None
    then show ?thesis using eq by (auto intro: absent.null)
  next
    case (Some b)
    show ?thesis
    proof (cases "b < length hp")
      case False
      then show ?thesis using eq Some by auto
    next
      case True
      show ?thesis
      proof (cases "strcmp w (e_word (hp ! b))")
        case None
        then show ?thesis using eq Some True by auto
      next
        case (Some r)
        show ?thesis
        proof (cases "r = 0")
          case True
          then show ?thesis using eq \<open>ep = Some b\<close> \<open>b < length hp\<close> Some
            by (auto intro: first_match.here)
        next
          case False
          then have f: "find hp w (e_next (hp ! b)) = Some y"
            using eq \<open>ep = Some b\<close> \<open>b < length hp\<close> Some by simp
          have ih': "(case y of Inr (Some a) \<Rightarrow> first_match hp w (e_next (hp ! b)) a
                      | Inr None \<Rightarrow> absent hp w (e_next (hp ! b)) | Inl e \<Rightarrow> True)"
            using ih[OF f] .
          show ?thesis
          proof (cases y)
            case (Inl e)
            then show ?thesis by simp
          next
            case (Inr r')
            show ?thesis
            proof (cases r')
              case None
              then have "absent hp w (Some b)"
                using ih' Inr \<open>b < length hp\<close> Some False by (auto intro: absent.skip)
              then show ?thesis using Inr None \<open>ep = Some b\<close> by simp
            next
              case (Some a)
              then have "first_match hp w (Some b) a"
                using ih' Inr \<open>b < length hp\<close> \<open>strcmp w (e_word (hp ! b)) = Some r\<close> False
                by (auto intro: first_match.later)
              then show ?thesis using Inr Some \<open>ep = Some b\<close> by simp
            qed
          qed
        qed
      qed
    qed
  qed
qed

lemma find_entry_found: "find_entry hp w ep = Some (Inr (Some a)) \<Longrightarrow> first_match hp w ep a"
  using find_entry_sound[of hp w ep "Inr (Some a)"] by simp

lemma find_entry_absent: "find_entry hp w ep = Some (Inr None) \<Longrightarrow> absent hp w ep"
  using find_entry_sound[of hp w ep "Inr None"] by simp

lemma first_match_find: "first_match hp w ep a \<Longrightarrow> find_entry hp w ep = Some (Inr (Some a))"
proof (induction rule: first_match.induct)
  case (here a)
  then show ?case by (subst find_entry.simps) simp
next
  case (later b r a)
  then show ?case by (subst find_entry.simps) simp
qed

lemma absent_find: "absent hp w ep \<Longrightarrow> find_entry hp w ep = Some (Inr None)"
proof (induction rule: absent.induct)
  case null
  then show ?case by (subst find_entry.simps) simp
next
  case (skip b r)
  then show ?case by (subst find_entry.simps) simp
qed

lemma first_match_in_chain:
  "first_match hp w ep a \<Longrightarrow>
     in_chain hp ep a \<and> a < length hp \<and> strcmp w (e_word (hp ! a)) = Some 0"
  by (induction rule: first_match.induct) (auto intro: in_chain.intros)

lemma absent_no_match:
  "absent hp w ep \<Longrightarrow> in_chain hp ep b \<Longrightarrow> strcmp w (e_word (hp ! b)) \<noteq> Some 0"
proof (induction rule: absent.induct)
  case null
  then show ?case by (auto elim: in_chain.cases)
next
  case (skip c r)
  from skip.prems show ?case
  proof (cases rule: in_chain.cases)
    case head
    then show ?thesis using skip.hyps by auto
  next
    case (step)
    then show ?thesis using skip.IH by auto
  qed
qed

lemma in_chain_mono: "in_chain hp ep a \<Longrightarrow> same_links hp hp' \<Longrightarrow> in_chain hp' ep a"
proof (induction rule: in_chain.induct)
  case (head a)
  then show ?case by (auto simp: same_links_def intro: in_chain.head)
next
  case (step b a)
  then have "b < length hp'" "e_next (hp' ! b) = e_next (hp ! b)"
    by (auto simp: same_links_def)
  then show ?case using step by (auto intro: in_chain.step)
qed

lemma first_match_mono:
  "first_match hp w ep a \<Longrightarrow> same_links hp hp' \<Longrightarrow> first_match hp' w ep a"
proof (induction rule: first_match.induct)
  case (here a)
  then show ?case by (auto simp: same_links_def intro: first_match.here)
next
  case (later b r a)
  then have "b < length hp'" "e_next (hp' ! b) = e_next (hp ! b)"
    "e_word (hp' ! b) = e_word (hp ! b)"
    by (auto simp: same_links_def)
  then show ?case using later by (auto intro: first_match.later)
qed

lemma same_links_bump:
  "same_links hp (hp[a := (hp ! a)\<lparr>e_count := c\<rparr>])"
  by (cases "a < length hp") (auto simp: same_links_def nth_list_update)

lemma same_links_append: "same_links hp (hp @ [e])"
  by (auto simp: same_links_def nth_append)

lemma strdup_c_str: "strdup w = Some w' \<Longrightarrow> w' = c_str w @ [NUL] \<and> NUL \<in> set w"
proof (induction w arbitrary: w')
  case Nil
  then show ?case by simp
next
  case (Cons c w)
  then show ?case by (auto simp: c_str_def split: if_splits)
qed

lemma strcmp_self: "NUL \<in> set w \<Longrightarrow> strcmp w (c_str w @ [NUL]) = Some 0"
  by (induction w) (auto simp: c_str_def)

lemma strcmp_zero_c_str: "strcmp w e = Some 0 \<Longrightarrow> c_str e = c_str w"
proof (induction w e rule: strcmp.induct)
  case (1 a as b bs)
  then show ?case by (auto simp: c_str_def split: if_splits)
qed auto

lemma hash_range: "hash sg w = Some hw \<Longrightarrow> unat hw < NBUCKETS"
proof (cases w)
  case Nil
  then show "hash sg w = Some hw \<Longrightarrow> unat hw < NBUCKETS" by simp
next
  case (Cons c s)
  assume "hash sg w = Some hw"
  then obtain h len where "hw = (h XOR len) mod of_nat NBUCKETS"
    using Cons by (auto split: option.splits)
  then show "unat hw < NBUCKETS" by (simp add: unat_mod NBUCKETS_def)
qed

lemma count_cases:
  assumes "count sg w p = Inr p'"
  obtains (found) hw a where "hash sg w = Some hw"
      "find_entry (heap p) w (ht p (unat hw)) = Some (Inr (Some a))"
      "e_count (heap p ! a) \<noteq> INT_MAX"
      "p' = p\<lparr>heap := (heap p)[a := (heap p ! a)\<lparr>e_count := e_count (heap p ! a) + 1\<rparr>]\<rparr>"
  | (new) hw w' where "hash sg w = Some hw"
      "find_entry (heap p) w (ht p (unat hw)) = Some (Inr None)"
      "strdup w = Some w'"
      "p' = p\<lparr>heap := heap p @ [\<lparr>e_next = ht p (unat hw), e_word = w', e_count = 1\<rparr>],
              ht := (ht p)(unat hw := Some (length (heap p)))\<rparr>"
  using assms unfolding count_def
  by (auto simp: Let_def split: option.splits sum.splits if_splits)

subsection \<open>Counting a stream with \<^verbatim>\<open>count\<close>\<close>

lemma find_entry_cong_aux:
  assumes "find_entry hp0 w0 ep0 = Some y0"
  shows "\<forall>w2. (\<forall>e. strcmp w0 e = strcmp w2 e) \<longrightarrow> find_entry hp0 w2 ep0 = Some y0"
proof (rule find_entry.raw_induct[where P = "\<lambda>hp w ep y.
    \<forall>w2. (\<forall>e. strcmp w e = strcmp w2 e) \<longrightarrow> find_entry hp w2 ep = Some y"])
  show "find_entry hp0 w0 ep0 = Some y0" by (rule assms)
next
  fix find :: "entry list \<Rightarrow> char list \<Rightarrow> addr option \<Rightarrow> (error + addr option) option"
    and hp w ep y
  assume ih: "\<And>hp w ep y. find hp w ep = Some y \<Longrightarrow>
      \<forall>w2. (\<forall>e. strcmp w e = strcmp w2 e) \<longrightarrow> find_entry hp w2 ep = Some y"
    and eq: "(case ep of
        None \<Rightarrow> Some (Inr None)
      | Some a \<Rightarrow>
          if a < length hp then
            (case strcmp w (e_word (hp ! a)) of
               None \<Rightarrow> Some (Inl Out_of_bounds)
             | Some r \<Rightarrow>
                 if r = 0 then Some (Inr (Some a))
                 else find hp w (e_next (hp ! a)))
          else Some (Inl Bad_pointer)) = Some y"
  show "\<forall>w2. (\<forall>e. strcmp w e = strcmp w2 e) \<longrightarrow> find_entry hp w2 ep = Some y"
  proof (intro allI impI)
    fix w2
    assume s: "\<forall>e. strcmp w e = strcmp w2 e"
    show "find_entry hp w2 ep = Some y"
    proof (cases ep)
      case None
      then show ?thesis using eq by (subst find_entry.simps) simp
    next
      case (Some b)
      show ?thesis
      proof (cases "b < length hp \<and> (\<exists>r. strcmp w (e_word (hp ! b)) = Some r \<and> r \<noteq> 0)")
        case True
        then obtain r where r: "strcmp w (e_word (hp ! b)) = Some r" "r \<noteq> 0" by blast
        then have "find hp w (e_next (hp ! b)) = Some y" using eq Some True by simp
        then have "find_entry hp w2 (e_next (hp ! b)) = Some y" using ih s by blast
        moreover have "strcmp w2 (e_word (hp ! b)) = Some r" using r s by simp
        ultimately show ?thesis using Some True r by (subst find_entry.simps) simp
      next
        case False
        then show ?thesis using eq Some s
          by (subst find_entry.simps) (auto split: option.splits if_splits)
      qed
    qed
  qed
qed

lemma find_entry_cong:
  assumes "\<forall>e. strcmp w1 e = strcmp w2 e"
  shows "find_entry hp w1 ep = find_entry hp w2 ep"
proof (cases "find_entry hp w1 ep")
  case (Some y)
  have "find_entry hp w2 ep = Some y" using find_entry_cong_aux[OF Some] assms by blast
  then show ?thesis using Some by simp
next
  case None
  show ?thesis
  proof (cases "find_entry hp w2 ep")
    case None
    then show ?thesis using \<open>find_entry hp w1 ep = None\<close> by simp
  next
    case (Some y)
    have "\<forall>e. strcmp w2 e = strcmp w1 e" using assms by simp
    then have "find_entry hp w1 ep = Some y" using find_entry_cong_aux[OF Some] by blast
    then show ?thesis using None by simp
  qed
qed

lemma count_terminated:
  assumes "t \<noteq> []" "NUL \<notin> set t"
  shows "count sg (t @ NUL # g) p = count sg (t @ [NUL]) p"
proof -
  obtain v where v: "hash sg (t @ NUL # g) = Some v" "hash sg (t @ [NUL]) = Some v"
    using hash_terminated[OF assms] by blast
  have f: "find_entry (heap p) (t @ NUL # g) ep = find_entry (heap p) (t @ [NUL]) ep" for ep
    using find_entry_cong strcmp_terminated[OF assms(2)] by blast
  have d: "strdup (t @ NUL # g) = strdup (t @ [NUL])"
    using strdup_terminated[OF assms(2)] by simp
  show ?thesis unfolding count_def v f d by simp
qed

lemma foldE_count_snap:
  "list_all2 snap ms ts \<Longrightarrow> \<forall>t \<in> set ts. good_token t \<Longrightarrow>
     foldE (count sg) ms p = foldE (count sg) (map (\<lambda>t. t @ [NUL]) ts) p"
proof (induction arbitrary: p rule: list_all2_induct)
  case Nil
  then show ?case by simp
next
  case (Cons m ms t ts)
  obtain g where m: "m = t @ NUL # g" using Cons.hyps(1) by (auto simp: snap_iff)
  have gt: "t \<noteq> []" "NUL \<notin> set t"
    using Cons.prems isalpha_not_NUL by (auto simp: good_token_def)
  have "count sg m p = count sg (t @ [NUL]) p" using m count_terminated[OF gt] by simp
  then show ?case using Cons by (auto split: sum.splits)
qed

lemma count_stream_count:
  assumes "length word0 = MAXWORD"
  shows "count_stream (count sg) bytes word0 p
           = foldE (count sg) (map (\<lambda>t. t @ [NUL]) (toks None bytes)) p"
proof -
  obtain ms where ms: "list_all2 snap ms (toks None bytes)"
    "count_stream (count sg) bytes word0 p = foldE (count sg) ms p"
    using count_stream_refines[OF assms, of bytes "count sg" p] by blast
  have "\<forall>t \<in> set (toks None bytes). good_token t" using toks_None_good by blast
  then have "foldE (count sg) ms p = foldE (count sg) (map (\<lambda>t. t @ [NUL]) (toks None bytes)) p"
    by (rule foldE_count_snap[OF ms(1)])
  then show ?thesis using ms(2) by simp
qed

subsection \<open>Examples\<close>

lemma toks_ab: "toks None ''ab'' = [''ab'']" "toks None ''a'' = [''a'']" "toks None ''b'' = [''b'']"
  by (simp_all add: toks_def tok_step_def flush_def isalpha_def byte_def MAXWORD_def)

lemma caw_example:
  "count_all_words sg example_fs ''ab.txt'' (replicate MAXWORD NUL) p = count sg (''ab'' @ [NUL]) p"
  "count_all_words sg example_fs ''a.txt'' (replicate MAXWORD NUL) p = count sg (''a'' @ [NUL]) p"
  "count_all_words sg example_fs ''b.txt'' (replicate MAXWORD NUL) p = count sg (''b'' @ [NUL]) p"
  by (simp_all add: count_all_words_def count_all_words_with_def example_fs_def
        count_stream_count toks_ab split: sum.splits)

lemma hash_examples:
  "hash True (''ab'' @ [NUL]) = Some 8255"
  "hash True (''a'' @ [NUL]) = Some 9875"
  "hash True (''b'' @ [NUL]) = Some 9887"
  by code_simp+

lemma find_entry_null: "find_entry hp w None = Some (Inr None)"
  by (subst find_entry.simps) simp

lemma count_ab_empty: "count True (''ab'' @ [NUL]) empty_pool = Inr one_word_pool"
  unfolding count_def hash_examples
  by (simp add: empty_pool_def one_word_pool_def find_entry_null NUL_def)

subsection \<open>The claims about \<^verbatim>\<open>count\<close>\<close>

lemma word_total_found:
  "hash sg w = Some hw \<Longrightarrow> first_match (heap p) w (ht p (unat hw)) a \<Longrightarrow>
     word_total sg p w = e_count (heap p ! a)"
  by (simp add: word_total_def first_match_find)

lemma word_total_absent:
  "hash sg w = Some hw \<Longrightarrow> absent (heap p) w (ht p (unat hw)) \<Longrightarrow> word_total sg p w = 0"
  by (simp add: word_total_def absent_find)

lemma count_found_state:
  assumes "hash sg w = Some hw" "first_match (heap p) w (ht p (unat hw)) a"
    "e_count (heap p ! a) \<noteq> INT_MAX"
  shows "count sg w p =
           Inr (p\<lparr>heap := (heap p)[a := (heap p ! a)\<lparr>e_count := e_count (heap p ! a) + 1\<rparr>]\<rparr>)"
  using assms by (simp add: count_def first_match_find Let_def)

lemma count_contract_returning:
  assumes "count sg word p = Inr p'" and h: "hash sg word = Some hw"
  shows "unat hw < NBUCKETS
      \<and> word_total sg p' word = word_total sg p word + 1
      \<and> ((\<exists>a. first_match (heap p) word (ht p (unat hw)) a
              \<and> first_match (heap p') word (ht p' (unat hw)) a
              \<and> in_chain (heap p') (ht p' (unat hw)) a
              \<and> c_str (e_word (heap p' ! a)) = c_str word
              \<and> e_count (heap p' ! a) = e_count (heap p ! a) + 1)
          \<or> (absent (heap p) word (ht p (unat hw))
              \<and> word_total sg p word = 0
              \<and> heap p' = heap p @ [\<lparr>e_next = ht p (unat hw), e_word = c_str word @ [NUL],
                                       e_count = 1\<rparr>]
              \<and> ht p' = (ht p)(unat hw := Some (length (heap p)))
              \<and> first_match (heap p') word (ht p' (unat hw)) (length (heap p))
              \<and> in_chain (heap p') (ht p' (unat hw)) (length (heap p))))"
  using assms(1)
proof (cases rule: count_cases)
  case (found hw' a)
  have e: "hw' = hw" using found(1) h by simp
  note found = found[unfolded e]
  let ?h = "unat hw"
  have fm: "first_match (heap p) word (ht p ?h) a" using found(2) by (rule find_entry_found)
  have a: "a < length (heap p)" using first_match_in_chain[OF fm] by simp
  have sl: "same_links (heap p) (heap p')" using found(4) by (simp add: same_links_bump)
  have ht: "ht p' = ht p" using found(4) by simp
  have fm': "first_match (heap p') word (ht p' ?h) a"
    using first_match_mono[OF fm sl] ht by simp
  have c: "e_count (heap p' ! a) = e_count (heap p ! a) + 1" using found(4) a by simp
  have t: "word_total sg p' word = word_total sg p word + 1"
    using word_total_found[OF found(1) fm] word_total_found[OF found(1) fm'] c by simp
  have s: "c_str (e_word (heap p' ! a)) = c_str word"
    using first_match_in_chain[OF fm'] strcmp_zero_c_str by blast
  show ?thesis
    using hash_range[OF found(1)] t fm fm' first_match_in_chain[OF fm'] s c by blast
next
  case (new hw' w')
  have e: "hw' = hw" using new(1) h by simp
  note new = new[unfolded e]
  let ?h = "unat hw"
  let ?n = "length (heap p)"
  have ab: "absent (heap p) word (ht p ?h)" using new(2) by (rule find_entry_absent)
  have w': "w' = c_str word @ [NUL]" "NUL \<in> set word" using strdup_c_str[OF new(3)] by auto
  have hp: "heap p' = heap p @ [\<lparr>e_next = ht p ?h, e_word = c_str word @ [NUL], e_count = 1\<rparr>]"
    using new(4) w' by simp
  have ht: "ht p' = (ht p)(?h := Some ?n)" using new(4) by simp
  have "strcmp word (e_word (heap p' ! ?n)) = Some 0"
    using hp strcmp_self[OF w'(2)] by simp
  then have fm': "first_match (heap p') word (ht p' ?h) ?n"
    using hp ht by (auto intro: first_match.here)
  have t0: "word_total sg p word = 0" using word_total_absent[OF new(1) ab] .
  have "word_total sg p' word = 1" using word_total_found[OF new(1) fm'] hp by simp
  then have t: "word_total sg p' word = word_total sg p word + 1" using t0 by simp
  show ?thesis
    using hash_range[OF new(1)] t ab t0 hp ht fm' first_match_in_chain[OF fm'] by blast
qed

lemma count_preserves_returning:
  assumes "count sg word p = Inr p'"
  shows "length (heap p) \<le> length (heap p')
       \<and> (\<forall>a < length (heap p).
             e_word (heap p' ! a) = e_word (heap p ! a)
             \<and> e_next (heap p' ! a) = e_next (heap p ! a)
             \<and> e_count (heap p ! a) \<le> e_count (heap p' ! a))
       \<and> (\<forall>h a. in_chain (heap p) (ht p h) a \<longrightarrow> in_chain (heap p') (ht p' h) a)
       \<and> ((\<forall>a < length (heap p). 1 \<le> e_count (heap p ! a))
            \<longrightarrow> (\<forall>a < length (heap p'). 1 \<le> e_count (heap p' ! a)))"
  using assms
proof (cases rule: count_cases)
  case (found hw a)
  have sl: "same_links (heap p) (heap p')" using found(4) by (simp add: same_links_bump)
  have ht: "ht p' = ht p" using found(4) by simp
  have len: "length (heap p') = length (heap p)" using found(4) by simp
  have c: "\<forall>x < length (heap p). e_count (heap p ! x) \<le> e_count (heap p' ! x)"
    using found(4) by (cases "a < length (heap p)") (auto simp: nth_list_update)
  have "\<forall>h x. in_chain (heap p) (ht p h) x \<longrightarrow> in_chain (heap p') (ht p' h) x"
    using in_chain_mono[OF _ sl] ht by auto
  moreover have "(\<forall>x < length (heap p). 1 \<le> e_count (heap p ! x))
            \<longrightarrow> (\<forall>x < length (heap p'). 1 \<le> e_count (heap p' ! x))"
    using c len by (metis order_trans)
  ultimately show ?thesis using sl c len by (simp add: same_links_def)
next
  case (new hw w')
  let ?h = "unat hw"
  let ?n = "length (heap p)"
  have hp: "heap p' = heap p @ [\<lparr>e_next = ht p ?h, e_word = w', e_count = 1\<rparr>]"
    using new(4) by simp
  have ht: "ht p' = (ht p)(?h := Some ?n)" using new(4) by simp
  have sl: "same_links (heap p) (heap p')" using hp by (simp add: same_links_append)
  have c: "\<forall>x < length (heap p). e_count (heap p ! x) \<le> e_count (heap p' ! x)"
    using hp by (simp add: nth_append)
  have ch: "in_chain (heap p') (ht p' h) x" if ic: "in_chain (heap p) (ht p h) x" for h x
  proof (cases "h = ?h")
    case False
    then show ?thesis using in_chain_mono[OF ic sl] ht by simp
  next
    case True
    have "in_chain (heap p') (e_next (heap p' ! ?n)) x"
      using in_chain_mono[OF ic sl] True hp by simp
    then have "in_chain (heap p') (Some ?n) x"
      using hp by (intro in_chain.step) simp_all
    then show ?thesis using True ht by simp
  qed
  have one: "(\<forall>x < length (heap p). 1 \<le> e_count (heap p ! x))
            \<longrightarrow> (\<forall>x < length (heap p'). 1 \<le> e_count (heap p' ! x))"
    using hp by (auto simp: nth_append)
  show ?thesis using sl c ch one by (simp add: same_links_def)
qed

text \<open>
  C6: when an entry for \<open>word\<close> is in the chain of the bucket \<open>hash(word)\<close>, a call of
  \<^verbatim>\<open>count(word)\<close> that returns changes no structure: the bucket heads, the number
  of entries, every \<^verbatim>\<open>next\<close> pointer and every word are as before, and so are the
  counts of all entries but the first matching one, whose count is one more. And when the
  scan reaches a first matching entry whose count is below \<^const>\<open>INT_MAX\<close>, the call does
  return, with exactly these effects.
\<close>

theorem count_found_frame:
  assumes "hash sg word = Some hw"
  shows "(count sg word p = Inr p' \<and> in_chain (heap p) (ht p (unat hw)) b
            \<and> strcmp word (e_word (heap p ! b)) = Some 0
          \<longrightarrow> (\<exists>a. first_match (heap p) word (ht p (unat hw)) a
                \<and> ht p' = ht p \<and> length (heap p') = length (heap p)
                \<and> (\<forall>x. e_next (heap p' ! x) = e_next (heap p ! x)
                       \<and> e_word (heap p' ! x) = e_word (heap p ! x))
                \<and> (\<forall>x. x \<noteq> a \<longrightarrow> e_count (heap p' ! x) = e_count (heap p ! x))
                \<and> e_count (heap p' ! a) = e_count (heap p ! a) + 1))
       \<and> (first_match (heap p) word (ht p (unat hw)) a \<and> e_count (heap p ! a) \<noteq> INT_MAX
          \<longrightarrow> (\<exists>q. count sg word p = Inr q
                \<and> ht q = ht p \<and> length (heap q) = length (heap p)
                \<and> (\<forall>x. e_next (heap q ! x) = e_next (heap p ! x)
                       \<and> e_word (heap q ! x) = e_word (heap p ! x))
                \<and> (\<forall>x. x \<noteq> a \<longrightarrow> e_count (heap q ! x) = e_count (heap p ! x))
                \<and> e_count (heap q ! a) = e_count (heap p ! a) + 1))"
proof -
  have frame: "ht q = ht p \<and> length (heap q) = length (heap p)
                \<and> (\<forall>x. e_next (heap q ! x) = e_next (heap p ! x)
                       \<and> e_word (heap q ! x) = e_word (heap p ! x))
                \<and> (\<forall>x. x \<noteq> a \<longrightarrow> e_count (heap q ! x) = e_count (heap p ! x))
                \<and> e_count (heap q ! a) = e_count (heap p ! a) + 1"
    if fm: "first_match (heap p) word (ht p (unat hw)) a"
      and q: "q = p\<lparr>heap := (heap p)[a := (heap p ! a)\<lparr>e_count := e_count (heap p ! a) + 1\<rparr>]\<rparr>"
    for a q
  proof -
    have a: "a < length (heap p)" using first_match_in_chain[OF fm] by simp
    have "e_next (heap q ! x) = e_next (heap p ! x) \<and> e_word (heap q ! x) = e_word (heap p ! x)"
      for x using q a by (cases "x = a") simp_all
    moreover have "x \<noteq> a \<longrightarrow> e_count (heap q ! x) = e_count (heap p ! x)" for x
      using q by simp
    moreover have "e_count (heap q ! a) = e_count (heap p ! a) + 1" using q a by simp
    ultimately show ?thesis using q by simp
  qed
  have 1: "\<exists>a. first_match (heap p) word (ht p (unat hw)) a
                \<and> ht p' = ht p \<and> length (heap p') = length (heap p)
                \<and> (\<forall>x. e_next (heap p' ! x) = e_next (heap p ! x)
                       \<and> e_word (heap p' ! x) = e_word (heap p ! x))
                \<and> (\<forall>x. x \<noteq> a \<longrightarrow> e_count (heap p' ! x) = e_count (heap p ! x))
                \<and> e_count (heap p' ! a) = e_count (heap p ! a) + 1"
    if c: "count sg word p = Inr p'" and ic: "in_chain (heap p) (ht p (unat hw)) b"
      and m: "strcmp word (e_word (heap p ! b)) = Some 0"
    using c
  proof (cases rule: count_cases)
    case (found hw' a')
    then have fm: "first_match (heap p) word (ht p (unat hw)) a'"
      using assms find_entry_found by auto
    show ?thesis using fm frame[OF fm found(4)] by blast
  next
    case (new hw' w')
    then have "absent (heap p) word (ht p (unat hw))" using assms find_entry_absent by auto
    then show ?thesis using absent_no_match ic m by blast
  qed
  have 2: "\<exists>q. count sg word p = Inr q
                \<and> ht q = ht p \<and> length (heap q) = length (heap p)
                \<and> (\<forall>x. e_next (heap q ! x) = e_next (heap p ! x)
                       \<and> e_word (heap q ! x) = e_word (heap p ! x))
                \<and> (\<forall>x. x \<noteq> a \<longrightarrow> e_count (heap q ! x) = e_count (heap p ! x))
                \<and> e_count (heap q ! a) = e_count (heap p ! a) + 1"
    if fm: "first_match (heap p) word (ht p (unat hw)) a" and n: "e_count (heap p ! a) \<noteq> INT_MAX"
    using count_found_state[OF assms fm n] frame[OF fm refl] by blast
  show ?thesis using 1 2 by blast
qed

lemma fm_one_word:
  "first_match (heap one_word_pool) (''ab'' @ [NUL]) (ht one_word_pool (unat (8255 :: 32 word))) 0"
proof -
  have "first_match (heap one_word_pool) (''ab'' @ [NUL]) (Some 0) 0"
    by (rule first_match.here) (simp_all add: one_word_pool_def NUL_def)
  then show ?thesis by (simp add: one_word_pool_def)
qed

lemma count_ab_again:
  "\<exists>q. count True (''ab'' @ [NUL]) one_word_pool = Inr q"
  using count_found_state[OF hash_examples(1) fm_one_word]
  by (simp add: one_word_pool_def INT_MAX_def)

theorem count_found_frame_witness:
  "hash True (''ab'' @ [NUL]) = Some 8255
   \<and> (\<exists>q. count True (''ab'' @ [NUL]) one_word_pool = Inr q
          \<and> ht q = ht one_word_pool \<and> length (heap q) = length (heap one_word_pool)
          \<and> e_count (heap q ! 0) = e_count (heap one_word_pool ! 0) + 1)"
proof -
  have n: "e_count (heap one_word_pool ! 0) \<noteq> INT_MAX"
    by (simp add: one_word_pool_def INT_MAX_def)
  show ?thesis
    using hash_examples(1) fm_one_word n
      count_found_frame[OF hash_examples(1), of one_word_pool one_word_pool 0 0]
    by blast
qed

subsection \<open>Calls of \<^verbatim>\<open>count\<close> that return\<close>

lemma count_commit:
  "count sg word p = (case count_tx sg word p of Inl e \<Rightarrow> Inl e | Inr ws \<Rightarrow> Inr (commit ws p))"
  by (auto simp: count_def count_tx_def commit_def Let_def
           split: option.splits sum.splits)

lemma strcmp_total: "NUL \<in> set w \<Longrightarrow> NUL \<in> set e \<Longrightarrow> \<exists>r. strcmp w e = Some r"
proof (induction w e rule: strcmp.induct)
  case (1 a as b bs)
  then show ?case by auto
qed auto

lemma hash_loop_Some_NUL: "hash_loop sg prev s len h = Some r \<Longrightarrow> NUL \<in> set s"
  by (induction s arbitrary: prev len h) (auto simp: Let_def split: if_splits)

lemma hash_Some_NUL: "hash sg w = Some hw \<Longrightarrow> NUL \<in> set w"
proof (cases w)
  case Nil
  then show "hash sg w = Some hw \<Longrightarrow> NUL \<in> set w" by simp
next
  case (Cons c s)
  assume "hash sg w = Some hw"
  then obtain r where "hash_loop sg c s 0 (of_nat NBUCKETS XOR push_bit 2 (to_unsigned sg c)) = Some r"
    using Cons by (auto split: option.splits)
  then show "NUL \<in> set w" using hash_loop_Some_NUL Cons by fastforce
qed

lemma strdup_total: "NUL \<in> set w \<Longrightarrow> \<exists>w'. strdup w = Some w'"
  by (induction w) auto

lemma chain_ok_scan:
  "chain_ok hp ep \<Longrightarrow> NUL \<in> set w \<Longrightarrow> (\<exists>a. first_match hp w ep a) \<or> absent hp w ep"
proof (induction rule: chain_ok.induct)
  case nil
  then show ?case by (auto intro: absent.null)
next
  case (link b)
  obtain r where r: "strcmp w (e_word (hp ! b)) = Some r"
    using strcmp_total[OF link.prems link.hyps(2)] by blast
  show ?case
  proof (cases "r = 0")
    case True
    then show ?thesis using r link.hyps(1) by (auto intro: first_match.here)
  next
    case False
    then show ?thesis using r link by (auto intro: first_match.later absent.skip)
  qed
qed

lemma chain_ok_mono: "chain_ok hp ep \<Longrightarrow> same_links hp hp' \<Longrightarrow> chain_ok hp' ep"
proof (induction rule: chain_ok.induct)
  case nil
  show ?case by (rule chain_ok.nil)
next
  case (link b)
  then have "b < length hp'" "e_next (hp' ! b) = e_next (hp ! b)"
    "e_word (hp' ! b) = e_word (hp ! b)"
    by (auto simp: same_links_def)
  then show ?case using link by (auto intro: chain_ok.link)
qed

lemma count_returns:
  assumes "hash sg word = Some hw" "chain_ok (heap p) (ht p (unat hw))"
    "word_total sg p word < INT_MAX"
  shows "\<exists>p'. count sg word p = Inr p'"
proof -
  have n: "NUL \<in> set word" using assms(1) by (rule hash_Some_NUL)
  consider a where "first_match (heap p) word (ht p (unat hw)) a"
    | "absent (heap p) word (ht p (unat hw))"
    using chain_ok_scan[OF assms(2) n] by blast
  then show ?thesis
  proof cases
    case 1
    then have "e_count (heap p ! a) \<noteq> INT_MAX"
      using assms(3) word_total_found[OF assms(1) 1] by simp
    then show ?thesis using count_found_state[OF assms(1) 1] by blast
  next
    case 2
    obtain w' where "strdup word = Some w'" using strdup_total[OF n] by blast
    then show ?thesis using assms(1) absent_find[OF 2] by (simp add: count_def Let_def)
  qed
qed

lemma count_returning_not_max:
  assumes c: "count sg word p = Inr p'"
  shows "word_total sg p word \<noteq> INT_MAX"
  using c by (cases rule: count_cases) (simp_all add: word_total_def INT_MAX_def)

lemma count_tx_returning:
  assumes c: "count sg word p = Inr p'" and h: "hash sg word = Some hw"
  shows "\<exists>ws. count_tx sg word p = Inr ws \<and> p' = commit ws p"
    and "first_match (heap p) word (ht p (unat hw)) a \<Longrightarrow>
           count_tx sg word p = Inr [Store_count a (e_count (heap p ! a) + 1)]"
    and "absent (heap p) word (ht p (unat hw)) \<Longrightarrow>
           count_tx sg word p =
             Inr [Alloc_entry \<lparr>e_next = ht p (unat hw), e_word = c_str word @ [NUL],
                               e_count = 1\<rparr>,
                  Store_head (unat hw) (Some (length (heap p)))]"
proof -
  show "\<exists>ws. count_tx sg word p = Inr ws \<and> p' = commit ws p"
    using c count_commit[of sg word p] by (cases "count_tx sg word p") auto
next
  assume fm: "first_match (heap p) word (ht p (unat hw)) a"
  have "e_count (heap p ! a) \<noteq> INT_MAX"
    using c h first_match_find[OF fm] by (auto simp: count_def Let_def split: if_splits)
  then show "count_tx sg word p = Inr [Store_count a (e_count (heap p ! a) + 1)]"
    using h first_match_find[OF fm] by (simp add: count_tx_def Let_def)
next
  assume ab: "absent (heap p) word (ht p (unat hw))"
  have n: "NUL \<in> set word" using h by (rule hash_Some_NUL)
  obtain w' where w': "strdup word = Some w'" using strdup_total[OF n] by blast
  then have "w' = c_str word @ [NUL]" using strdup_c_str by blast
  then show "count_tx sg word p =
             Inr [Alloc_entry \<lparr>e_next = ht p (unat hw), e_word = c_str word @ [NUL],
                               e_count = 1\<rparr>,
                  Store_head (unat hw) (Some (length (heap p)))]"
    using h absent_find[OF ab] w' by (simp add: count_tx_def Let_def)
qed

lemma count_chain_ok:
  assumes "count sg word p = Inr p'" "chain_ok (heap p) (ht p h)"
  shows "chain_ok (heap p') (ht p' h)"
  using assms(1)
proof (cases rule: count_cases)
  case (found hw a)
  have "same_links (heap p) (heap p')" using found(4) by (simp add: same_links_bump)
  then show ?thesis using chain_ok_mono[OF assms(2)] found(4) by simp
next
  case (new hw w')
  let ?n = "length (heap p)"
  have hp: "heap p' = heap p @ [\<lparr>e_next = ht p (unat hw), e_word = w', e_count = 1\<rparr>]"
    using new(4) by simp
  have ht: "ht p' = (ht p)(unat hw := Some ?n)" using new(4) by simp
  have sl: "same_links (heap p) (heap p')" using hp by (simp add: same_links_append)
  have w': "NUL \<in> set w'" using strdup_c_str[OF new(3)] by simp
  show ?thesis
  proof (cases "h = unat hw")
    case False
    then show ?thesis using chain_ok_mono[OF assms(2) sl] ht by simp
  next
    case True
    have "chain_ok (heap p') (e_next (heap p' ! ?n))"
      using chain_ok_mono[OF assms(2) sl] True hp by simp
    then have "chain_ok (heap p') (Some ?n)"
      using hp w' by (intro chain_ok.link) simp_all
    then show ?thesis using True ht by simp
  qed
qed

lemma hash_more_examples:
  "hash True (''yqb'' @ [NUL]) = Some 8255"
  by code_simp

lemma chain_ok_two_word:
  "chain_ok (heap two_word_pool) (ht two_word_pool (unat (8255 :: 32 word)))"
proof -
  have 0: "chain_ok (heap two_word_pool) (Some 0)"
    by (rule chain_ok.link) (simp_all add: two_word_pool_def chain_ok.nil)
  have "chain_ok (heap two_word_pool) (Some 1)"
    by (rule chain_ok.link) (use 0 in \<open>simp_all add: two_word_pool_def\<close>)
  then show ?thesis by (simp add: two_word_pool_def)
qed

lemma fm_two_word:
  "first_match (heap two_word_pool) (''ab'' @ [NUL])
     (ht two_word_pool (unat (8255 :: 32 word))) 0"
proof -
  have 0: "first_match (heap two_word_pool) (''ab'' @ [NUL]) (Some 0) 0"
    by (rule first_match.here) (simp_all add: two_word_pool_def NUL_def)
  have "first_match (heap two_word_pool) (''ab'' @ [NUL]) (Some 1) 0"
    by (rule first_match.later[where r = "- 1"])
       (use 0 in \<open>simp_all add: two_word_pool_def NUL_def byte_def\<close>)
  then show ?thesis by (simp add: two_word_pool_def)
qed

lemma absent_two_word:
  "absent (heap two_word_pool) (''yqb'' @ [NUL]) (ht two_word_pool (unat (8255 :: 32 word)))"
proof -
  have 0: "absent (heap two_word_pool) (''yqb'' @ [NUL]) (Some 0)"
    by (rule absent.skip[where r = 1])
       (simp_all add: two_word_pool_def NUL_def byte_def absent.null)
  have "absent (heap two_word_pool) (''yqb'' @ [NUL]) (Some 1)"
    by (rule absent.skip[where r = 1])
       (use 0 in \<open>simp_all add: two_word_pool_def NUL_def byte_def\<close>)
  then show ?thesis by (simp add: two_word_pool_def)
qed

lemma totals_two_word:
  "word_total True two_word_pool (''ab'' @ [NUL]) = 3"
  "word_total True two_word_pool (''yqb'' @ [NUL]) = 0"
  using word_total_found[OF hash_examples(1) fm_two_word]
    word_total_absent[OF hash_more_examples absent_two_word]
  by (simp_all add: two_word_pool_def)

lemma fm_max:
  "first_match (heap max_pool) (''ab'' @ [NUL]) (ht max_pool (unat (8255 :: 32 word))) 0"
proof -
  have "first_match (heap max_pool) (''ab'' @ [NUL]) (Some 0) 0"
    by (rule first_match.here) (simp_all add: max_pool_def NUL_def)
  then show ?thesis by (simp add: max_pool_def)
qed

lemma count_overflow_state:
  assumes "hash sg w = Some hw" "first_match (heap p) w (ht p (unat hw)) a"
    "e_count (heap p ! a) = INT_MAX"
  shows "count sg w p = Inl Int_overflow"
  using assms by (simp add: count_def first_match_find Let_def)

lemma count_max: "count True (''ab'' @ [NUL]) max_pool = Inl Int_overflow"
  by (rule count_overflow_state[OF hash_examples(1) fm_max])
     (simp add: max_pool_def INT_MAX_def)

text \<open>
  C1, as stated, fails for a table state: when the entry of the word holds the count
  \<^const>\<open>INT_MAX\<close>, the increment overflows the \<^verbatim>\<open>int\<close>; there is no return with a
  count one greater.
\<close>

theorem count_contract_counterexample:
  "word_total True max_pool (''ab'' @ [NUL]) = INT_MAX
   \<and> count True (''ab'' @ [NUL]) max_pool = Inl Int_overflow"
  using word_total_found[OF hash_examples(1) fm_max] count_max
  by (simp add: max_pool_def INT_MAX_def)

text \<open>
  C1, amended: for every word that \<^const>\<open>hash\<close> accepts and every table state in which
  the count held for the word is below \<^const>\<open>INT_MAX\<close> (a call that returns is such a call:
  the count it started from is not \<^const>\<open>INT_MAX\<close>), when \<^verbatim>\<open>count(word)\<close> returns,
  the chain of the bucket \<open>hash(word)\<close> holds an entry whose word equals \<open>word\<close> and whose
  count is one more than the count the table held for \<open>word\<close> at the start, an absent word
  counting as zero. Either the scan found the entry, and the one transaction of the call
  stores its count plus one; or no entry matched, and the one transaction of the call
  allocates an entry with count 1, a copy of the word and the old head of the bucket as
  its \<^verbatim>\<open>next\<close>, and stores its address in the bucket head. The new table is the old
  one with that transaction committed. And the call does return whenever the chain of the
  bucket is well formed and the count held for the word is below \<^const>\<open>INT_MAX\<close>.
\<close>

theorem count_contract:
  assumes h: "hash sg word = Some hw"
  shows "(\<forall>p'. count sg word p = Inr p' \<longrightarrow>
            word_total sg p word \<noteq> INT_MAX
          \<and> unat hw < NBUCKETS
          \<and> word_total sg p' word = word_total sg p word + 1
          \<and> (\<exists>ws. count_tx sg word p = Inr ws \<and> p' = commit ws p)
          \<and> ((\<exists>a. first_match (heap p) word (ht p (unat hw)) a
                  \<and> first_match (heap p') word (ht p' (unat hw)) a
                  \<and> in_chain (heap p') (ht p' (unat hw)) a
                  \<and> c_str (e_word (heap p' ! a)) = c_str word
                  \<and> e_count (heap p' ! a) = e_count (heap p ! a) + 1
                  \<and> count_tx sg word p = Inr [Store_count a (e_count (heap p ! a) + 1)])
              \<or> (absent (heap p) word (ht p (unat hw))
                  \<and> word_total sg p word = 0
                  \<and> heap p' = heap p @ [\<lparr>e_next = ht p (unat hw),
                                           e_word = c_str word @ [NUL], e_count = 1\<rparr>]
                  \<and> ht p' = (ht p)(unat hw := Some (length (heap p)))
                  \<and> first_match (heap p') word (ht p' (unat hw)) (length (heap p))
                  \<and> in_chain (heap p') (ht p' (unat hw)) (length (heap p))
                  \<and> count_tx sg word p =
                      Inr [Alloc_entry \<lparr>e_next = ht p (unat hw),
                                        e_word = c_str word @ [NUL], e_count = 1\<rparr>,
                           Store_head (unat hw) (Some (length (heap p)))])))
       \<and> (chain_ok (heap p) (ht p (unat hw)) \<and> word_total sg p word < INT_MAX \<longrightarrow>
            (\<exists>p'. count sg word p = Inr p'))"
proof (intro conjI allI impI)
  fix p'
  assume c: "count sg word p = Inr p'"
  show "word_total sg p word \<noteq> INT_MAX" by (rule count_returning_not_max[OF c])
  show "unat hw < NBUCKETS" using count_contract_returning[OF c h] by simp
  show "word_total sg p' word = word_total sg p word + 1"
    using count_contract_returning[OF c h] by simp
  show "\<exists>ws. count_tx sg word p = Inr ws \<and> p' = commit ws p"
    by (rule count_tx_returning(1)[OF c h])
  have d: "(\<exists>a. first_match (heap p) word (ht p (unat hw)) a
              \<and> first_match (heap p') word (ht p' (unat hw)) a
              \<and> in_chain (heap p') (ht p' (unat hw)) a
              \<and> c_str (e_word (heap p' ! a)) = c_str word
              \<and> e_count (heap p' ! a) = e_count (heap p ! a) + 1)
          \<or> (absent (heap p) word (ht p (unat hw))
              \<and> word_total sg p word = 0
              \<and> heap p' = heap p @ [\<lparr>e_next = ht p (unat hw), e_word = c_str word @ [NUL],
                                       e_count = 1\<rparr>]
              \<and> ht p' = (ht p)(unat hw := Some (length (heap p)))
              \<and> first_match (heap p') word (ht p' (unat hw)) (length (heap p))
              \<and> in_chain (heap p') (ht p' (unat hw)) (length (heap p)))"
    using count_contract_returning[OF c h] by simp
  show "(\<exists>a. first_match (heap p) word (ht p (unat hw)) a
                  \<and> first_match (heap p') word (ht p' (unat hw)) a
                  \<and> in_chain (heap p') (ht p' (unat hw)) a
                  \<and> c_str (e_word (heap p' ! a)) = c_str word
                  \<and> e_count (heap p' ! a) = e_count (heap p ! a) + 1
                  \<and> count_tx sg word p = Inr [Store_count a (e_count (heap p ! a) + 1)])
              \<or> (absent (heap p) word (ht p (unat hw))
                  \<and> word_total sg p word = 0
                  \<and> heap p' = heap p @ [\<lparr>e_next = ht p (unat hw),
                                           e_word = c_str word @ [NUL], e_count = 1\<rparr>]
                  \<and> ht p' = (ht p)(unat hw := Some (length (heap p)))
                  \<and> first_match (heap p') word (ht p' (unat hw)) (length (heap p))
                  \<and> in_chain (heap p') (ht p' (unat hw)) (length (heap p))
                  \<and> count_tx sg word p =
                      Inr [Alloc_entry \<lparr>e_next = ht p (unat hw),
                                        e_word = c_str word @ [NUL], e_count = 1\<rparr>,
                           Store_head (unat hw) (Some (length (heap p)))])"
    using d count_tx_returning(2)[OF c h] count_tx_returning(3)[OF c h] by blast
next
  assume "chain_ok (heap p) (ht p (unat hw)) \<and> word_total sg p word < INT_MAX"
  then show "\<exists>p'. count sg word p = Inr p'" using count_returns[OF h] by blast
qed

theorem count_contract_witness:
  "hash True (''ab'' @ [NUL]) = Some 8255
   \<and> chain_ok (heap two_word_pool) (ht two_word_pool (unat (8255 :: 32 word)))
   \<and> word_total True two_word_pool (''ab'' @ [NUL]) = 3
   \<and> (\<exists>p'. count True (''ab'' @ [NUL]) two_word_pool = Inr p'
          \<and> word_total True p' (''ab'' @ [NUL]) = 4
          \<and> count_tx True (''ab'' @ [NUL]) two_word_pool = Inr [Store_count 0 4])
   \<and> hash True (''yqb'' @ [NUL]) = Some 8255
   \<and> word_total True two_word_pool (''yqb'' @ [NUL]) = 0
   \<and> (\<exists>p'. count True (''yqb'' @ [NUL]) two_word_pool = Inr p'
          \<and> word_total True p' (''yqb'' @ [NUL]) = 1
          \<and> e_next (heap p' ! 2) = Some 1 \<and> ht p' 8255 = Some 2)"
proof -
  have l1: "word_total True two_word_pool (''ab'' @ [NUL]) < INT_MAX"
    and l2: "word_total True two_word_pool (''yqb'' @ [NUL]) < INT_MAX"
    unfolding totals_two_word by (simp_all add: INT_MAX_def)
  note t1 = count_contract[OF hash_examples(1), of two_word_pool]
  note t2 = count_contract[OF hash_more_examples, of two_word_pool]
  obtain p1 where p1: "count True (''ab'' @ [NUL]) two_word_pool = Inr p1"
    using t1 chain_ok_two_word l1 by blast
  have a1: "word_total True p1 (''ab'' @ [NUL]) = 4"
    using t1 p1 totals_two_word(1) by auto
  have "count_tx True (''ab'' @ [NUL]) two_word_pool
          = Inr [Store_count 0 (e_count (heap two_word_pool ! 0) + 1)]"
    by (rule count_tx_returning(2)[OF p1 hash_examples(1) fm_two_word])
  then have b1: "count_tx True (''ab'' @ [NUL]) two_word_pool = Inr [Store_count 0 4]"
    by (simp add: two_word_pool_def)
  obtain p2 where p2: "count True (''yqb'' @ [NUL]) two_word_pool = Inr p2"
    using t2 chain_ok_two_word l2 by blast
  have a2: "word_total True p2 (''yqb'' @ [NUL]) = 1"
    using t2 p2 totals_two_word(2) by auto
  have nf: "\<not> first_match (heap two_word_pool) (''yqb'' @ [NUL])
                (ht two_word_pool (unat (8255 :: 32 word))) a" for a
    using absent_find[OF absent_two_word] first_match_find[of "heap two_word_pool" _ _ a]
    by fastforce
  have "absent (heap two_word_pool) (''yqb'' @ [NUL]) (ht two_word_pool (unat (8255 :: 32 word)))
       \<and> heap p2 = heap two_word_pool
            @ [\<lparr>e_next = ht two_word_pool (unat (8255 :: 32 word)),
                e_word = c_str (''yqb'' @ [NUL]) @ [NUL], e_count = 1\<rparr>]
       \<and> ht p2 = (ht two_word_pool)(unat (8255 :: 32 word) := Some (length (heap two_word_pool)))"
    using t2 p2 nf by blast
  then have c2: "e_next (heap p2 ! 2) = Some 1" "ht p2 8255 = Some 2"
    by (simp_all add: two_word_pool_def)
  show ?thesis
    using hash_examples(1) hash_more_examples chain_ok_two_word totals_two_word
      p1 a1 b1 p2 a2 c2 by blast
qed

text \<open>
  C5, as stated, fails for one call: at an entry whose count is \<^const>\<open>INT_MAX\<close> the
  increment overflows the \<^verbatim>\<open>int\<close>, so that call does not return a table in which
  the count has not decreased.
\<close>

theorem count_preserves_entries_counterexample:
  "e_count (heap max_pool ! 0) = INT_MAX
   \<and> in_chain (heap max_pool) (ht max_pool 8255) 0
   \<and> result_total True (''ab'' @ [NUL]) (count True (''ab'' @ [NUL]) max_pool)
       = Inl Int_overflow"
proof -
  have "in_chain (heap max_pool) (Some 0) 0"
    by (rule in_chain.head) (simp add: max_pool_def)
  then have "in_chain (heap max_pool) (ht max_pool 8255) 0" by (simp add: max_pool_def)
  then show ?thesis
    unfolding count_max by (simp add: result_total_def max_pool_def INT_MAX_def)
qed

text \<open>
  C5, amended: every call of \<^verbatim>\<open>count\<close> that starts from a count below \<^const>\<open>INT_MAX\<close>
  for its word (a call that returns is such a call: the count it started from is not
  \<^const>\<open>INT_MAX\<close>) preserves the table invariant when it returns: every entry of the pool
  keeps its address, its word bytes and its \<^verbatim>\<open>next\<close> pointer and stays in the chain
  of every bucket it was in, every well-formed chain stays well formed, no count
  decreases, and when every count was at least 1 before the call, every count is at least
  1 after it. And a call on a word that \<^const>\<open>hash\<close> accepts does return whenever the chain
  of its bucket is well formed and the count held for the word is below \<^const>\<open>INT_MAX\<close>.
\<close>

theorem count_preserves_entries:
  assumes h: "hash sg word = Some hw"
  shows "(\<forall>p'. count sg word p = Inr p' \<longrightarrow>
            word_total sg p word \<noteq> INT_MAX
          \<and> length (heap p) \<le> length (heap p')
          \<and> (\<forall>a < length (heap p).
                e_word (heap p' ! a) = e_word (heap p ! a)
                \<and> e_next (heap p' ! a) = e_next (heap p ! a)
                \<and> e_count (heap p ! a) \<le> e_count (heap p' ! a))
          \<and> (\<forall>b a. in_chain (heap p) (ht p b) a \<longrightarrow> in_chain (heap p') (ht p' b) a)
          \<and> (\<forall>b. chain_ok (heap p) (ht p b) \<longrightarrow> chain_ok (heap p') (ht p' b))
          \<and> ((\<forall>a < length (heap p). 1 \<le> e_count (heap p ! a))
               \<longrightarrow> (\<forall>a < length (heap p'). 1 \<le> e_count (heap p' ! a))))
       \<and> (chain_ok (heap p) (ht p (unat hw)) \<and> word_total sg p word < INT_MAX \<longrightarrow>
            (\<exists>p'. count sg word p = Inr p'))"
proof -
  have r: "\<exists>p'. count sg word p = Inr p'"
    if "chain_ok (heap p) (ht p (unat hw)) \<and> word_total sg p word < INT_MAX"
    using that count_returns[OF h] by blast
  have g: "word_total sg p word \<noteq> INT_MAX
          \<and> length (heap p) \<le> length (heap p')
          \<and> (\<forall>a < length (heap p).
                e_word (heap p' ! a) = e_word (heap p ! a)
                \<and> e_next (heap p' ! a) = e_next (heap p ! a)
                \<and> e_count (heap p ! a) \<le> e_count (heap p' ! a))
          \<and> (\<forall>b a. in_chain (heap p) (ht p b) a \<longrightarrow> in_chain (heap p') (ht p' b) a)
          \<and> (\<forall>b. chain_ok (heap p) (ht p b) \<longrightarrow> chain_ok (heap p') (ht p' b))
          \<and> ((\<forall>a < length (heap p). 1 \<le> e_count (heap p ! a))
               \<longrightarrow> (\<forall>a < length (heap p'). 1 \<le> e_count (heap p' ! a)))"
    if c: "count sg word p = Inr p'" for p'
  proof -
    have k: "\<forall>b. chain_ok (heap p) (ht p b) \<longrightarrow> chain_ok (heap p') (ht p' b)"
      using count_chain_ok[OF c] by blast
    show ?thesis
      using k count_preserves_returning[OF c] count_returning_not_max[OF c] by blast
  qed
  show ?thesis using g r by blast
qed

theorem count_preserves_entries_witness:
  "hash True (''ab'' @ [NUL]) = Some 8255
   \<and> chain_ok (heap two_word_pool) (ht two_word_pool (unat (8255 :: 32 word)))
   \<and> word_total True two_word_pool (''ab'' @ [NUL]) < INT_MAX
   \<and> (\<exists>q. count True (''ab'' @ [NUL]) two_word_pool = Inr q
          \<and> length (heap two_word_pool) \<le> length (heap q)
          \<and> e_word (heap q ! 1) = e_word (heap two_word_pool ! 1)
          \<and> e_next (heap q ! 1) = e_next (heap two_word_pool ! 1)
          \<and> e_count (heap two_word_pool ! 0) \<le> e_count (heap q ! 0)
          \<and> chain_ok (heap q) (ht q (unat (8255 :: 32 word))))"
proof -
  have l: "word_total True two_word_pool (''ab'' @ [NUL]) < INT_MAX"
    unfolding totals_two_word by (simp add: INT_MAX_def)
  note t = count_preserves_entries[OF hash_examples(1), of two_word_pool]
  obtain q where q: "count True (''ab'' @ [NUL]) two_word_pool = Inr q"
    using t chain_ok_two_word l by blast
  have f: "length (heap two_word_pool) \<le> length (heap q)"
    "\<forall>a < length (heap two_word_pool).
             e_word (heap q ! a) = e_word (heap two_word_pool ! a)
             \<and> e_next (heap q ! a) = e_next (heap two_word_pool ! a)
             \<and> e_count (heap two_word_pool ! a) \<le> e_count (heap q ! a)"
    "\<forall>b. chain_ok (heap two_word_pool) (ht two_word_pool b) \<longrightarrow> chain_ok (heap q) (ht q b)"
    using t q by blast+
  have n: "(0::nat) < length (heap two_word_pool)" "(1::nat) < length (heap two_word_pool)"
    by (simp_all add: two_word_pool_def)
  show ?thesis
    using hash_examples(1) chain_ok_two_word l q f n by blast
qed

subsection \<open>Splitting a stream\<close>

text \<open>
  C4, as stated, fails: a split inside a word makes two tokens of it. The stream \<open>ab\<close>
  counted as one file gives the word \<open>ab\<close> the total 1; counted as the two files \<open>a\<close>
  and \<open>b\<close> it gives \<open>ab\<close> the total 0.
\<close>

theorem split_stream_counterexample:
  "result_total True (''ab'' @ [NUL])
     (count_all_words True example_fs ''ab.txt'' (replicate MAXWORD NUL) empty_pool) = Inr 1
   \<and> result_total True (''ab'' @ [NUL])
     (two_calls True example_fs ''a.txt'' ''b.txt'' (replicate MAXWORD NUL) (replicate MAXWORD NUL)
        empty_pool) = Inr 0"
proof -
  have 1: "word_total True one_word_pool (''ab'' @ [NUL]) = 1"
    using word_total_found[OF hash_examples(1) fm_one_word] by (simp add: one_word_pool_def)
  obtain pa where pa: "count True (''a'' @ [NUL]) empty_pool = Inr pa"
      "ht pa = (\<lambda>_. None)(9875 := Some 0)"
    unfolding count_def hash_examples
    by (simp add: empty_pool_def find_entry_null NUL_def)
  obtain pb where pb: "count True (''b'' @ [NUL]) pa = Inr pb" "ht pb = (ht pa)(9887 := Some (length (heap pa)))"
    unfolding count_def hash_examples
    by (simp add: pa(2) find_entry_null NUL_def)
  have "absent (heap pb) (''ab'' @ [NUL]) (ht pb (unat (8255 :: 32 word)))"
    by (simp add: pb(2) pa(2) absent.null)
  then have 0: "word_total True pb (''ab'' @ [NUL]) = 0"
    by (rule word_total_absent[OF hash_examples(1)])
  show ?thesis
    unfolding result_total_def two_calls_def caw_example
    using count_ab_empty pa(1) pb(1) 0 1 by simp
qed

text \<open>
  C4, amended: for any text split into two halves at a point that is not inside a word
  (a half is empty, or the byte before the split or the byte after it is not alphabetic),
  counting the text as one stream and counting the halves by two sequential calls on the
  same table give the same table, or fail alike; so every word has the same total in
  both runs.
\<close>

theorem split_stream:
  assumes "length w0 = MAXWORD" "length w1 = MAXWORD" "length w2 = MAXWORD"
    and "fs f = Some (a @ b)" "fs fa = Some a" "fs fb = Some b"
    and "a = [] \<or> b = [] \<or> \<not> isalpha (last a) \<or> \<not> isalpha (hd b)"
  shows "count_all_words sg fs f w0 p = two_calls sg fs fa fb w1 w2 p
       \<and> result_total sg word (count_all_words sg fs f w0 p)
           = result_total sg word (two_calls sg fs fa fb w1 w2 p)"
proof -
  let ?c = "\<lambda>ts. foldE (count sg) (map (\<lambda>t. t @ [NUL]) ts)"
  have t: "toks None (a @ b) = toks None a @ toks None b" using assms(7) by (rule toks_split)
  have A: "count_all_words sg fs f w0 p = ?c (toks None a @ toks None b) p"
    using assms(1,4) t
    by (simp add: count_all_words_def count_all_words_with_def count_stream_count)
  have B: "count_all_words sg fs fa w1 p = ?c (toks None a) p"
    using assms(2,5)
    by (simp add: count_all_words_def count_all_words_with_def count_stream_count)
  have C: "count_all_words sg fs fb w2 q = ?c (toks None b) q" for q
    using assms(3,6)
    by (simp add: count_all_words_def count_all_words_with_def count_stream_count)
  have "count_all_words sg fs f w0 p = two_calls sg fs fa fb w1 w2 p"
    unfolding two_calls_def A B C map_append foldE_append ..
  then show ?thesis by simp
qed

theorem split_stream_witness:
  "length (replicate MAXWORD NUL) = MAXWORD
   \<and> example_fs ''the_cat.txt'' = Some (''the '' @ ''cat'')
   \<and> example_fs ''the.txt'' = Some ''the '' \<and> example_fs ''cat.txt'' = Some ''cat''
   \<and> \<not> isalpha (last ''the '')
   \<and> count_all_words True example_fs ''the_cat.txt'' (replicate MAXWORD NUL) empty_pool
       = two_calls True example_fs ''the.txt'' ''cat.txt'' (replicate MAXWORD NUL)
           (replicate MAXWORD NUL) empty_pool"
proof -
  have h: "length (replicate MAXWORD NUL) = MAXWORD"
    "example_fs ''the_cat.txt'' = Some (''the '' @ ''cat'')"
    "example_fs ''the.txt'' = Some ''the ''" "example_fs ''cat.txt'' = Some ''cat''"
    by (simp_all add: example_fs_def)
  have b: "\<not> isalpha (last ''the '')" by (simp add: isalpha_def byte_def)
  then have d: "''the '' = [] \<or> ''cat'' = [] \<or> \<not> isalpha (last ''the '') \<or> \<not> isalpha (hd ''cat'')"
    by blast
  show ?thesis
    using h b split_stream[OF h(1) h(1) h(1) h(2) h(3) h(4) d, of True empty_pool]
    by blast
qed

subsection \<open>The argument check of \<^verbatim>\<open>main\<close>\<close>

text \<open>
  C9: with fewer than two operands (a region path and at least one word file)
  \<^verbatim>\<open>main\<close> prints the usage message to the error stream and exits with status 1,
  and does nothing else: no action on the durable region comes before, or at all.
\<close>

theorem main_usage:
  assumes "length operands < 2"
  shows "main prog operands pool_open = [Print_stderr (usage prog), Exit 1]
       \<and> \<not> list_ex region_access (main prog operands pool_open)"
  using assms by (simp add: main_def)

theorem main_usage_witness:
  "length [''freqcount''] < (2::nat)
   \<and> main ''freq'' [''freqcount''] fresh_region
       = [Print_stderr ''usage: freq pmemfile wordfiles...\<newline>'', Exit 1]
   \<and> \<not> list_ex region_access (main ''freq'' [''freqcount''] fresh_region)"
proof -
  have h: "length [''freqcount''] < (2::nat)" by simp
  show ?thesis using h main_usage[OF h, of "''freq''" fresh_region] by (simp add: usage_def)
qed

lemma main_opens_region:
  "2 \<le> length operands \<Longrightarrow> hd (main prog operands pool_open) = Pool_open (operands ! 0) LAYOUT"
  by (simp add: main_def)

section \<open>The threads\<close>

lemma stuck_at_init: "k < length files \<Longrightarrow> stuck_at files k (init_proc p files)"
  by (simp add: stuck_at_def init_proc_def)

lemma stuck_at_step:
  assumes "stuck_at files k s" "k < length files" "fs (files ! k) = None"
    "driver_step sg fs bufs w s = Some s'"
  shows "stuck_at files k s'"
proof (cases w)
  case Driver
  show ?thesis
  proof (cases "pr_files s")
    case Nil
    then have l: "length (pr_threads s) = length files"
      using assms(1) by (auto simp: stuck_at_def)
    then have j: "pr_joined s < length (pr_threads s)" "pr_threads s ! k = Created (files ! k)"
      using assms(1,2) by (auto simp: stuck_at_def)
    have "pr_threads s ! pr_joined s = Returned \<Longrightarrow> pr_joined s \<noteq> k" using j(2) by auto
    then have "pr_threads s ! pr_joined s = Returned \<Longrightarrow> Suc (pr_joined s) \<le> k"
      using assms(1) by (auto simp: stuck_at_def)
    then show ?thesis using assms(1,4) Driver Nil j
      by (auto simp: driver_step_def stuck_at_def split: if_splits)
  next
    case (Cons f rest)
    let ?n = "length (pr_threads s)"
    have d: "drop ?n files = f # rest" using assms(1) Cons by (simp add: stuck_at_def)
    then have n: "?n < length files" by (cases "?n < length files") auto
    have f: "f = files ! ?n" using d n by (metis Cons_nth_drop_Suc list.inject)
    have r: "rest = drop (Suc ?n) files" using d n by (metis Cons_nth_drop_Suc list.inject)
    have s': "s' = s\<lparr>pr_files := rest, pr_threads := pr_threads s @ [Created f]\<rparr>"
      using assms(4) Driver Cons by (auto simp: driver_step_def split: if_splits)
    have c: "(pr_threads s @ [Created f]) ! k = Created (files ! k)"
      if "k < Suc ?n"
    proof (cases "k < ?n")
      case True
      then show ?thesis using assms(1) by (simp add: stuck_at_def nth_append)
    next
      case False
      then have "k = ?n" using that by arith
      then show ?thesis using f by simp
    qed
    show ?thesis using assms(1) n r c unfolding s'
      by (simp add: stuck_at_def)
  qed
next
  case (Worker i)
  show ?thesis
  proof (cases "i = k")
    case True
    then show ?thesis using assms Worker
      by (auto simp: driver_step_def stuck_at_def split: if_splits thread.splits list.splits)
  next
    case False
    then show ?thesis using assms(1,4) Worker
      by (auto simp: driver_step_def stuck_at_def nth_list_update
               split: if_splits thread.splits list.splits option.splits sum.splits)
  qed
qed

lemma stuck_at_run:
  assumes "k < length files" "fs (files ! k) = None"
  shows "stuck_at files k s \<Longrightarrow> run sg fs bufs ws s = Some s' \<Longrightarrow> stuck_at files k s'"
proof (induction ws arbitrary: s)
  case Nil
  then show ?case by simp
next
  case (Cons w ws)
  then obtain s1 where s1: "driver_step sg fs bufs w s = Some s1" "run sg fs bufs ws s1 = Some s'"
    by (auto split: option.splits)
  have "stuck_at files k s1" using stuck_at_step[OF Cons.prems(1) assms s1(1)] .
  then show ?case using Cons.IH s1(2) by blast
qed

lemma terminated_final: "pr_status s \<noteq> Alive \<Longrightarrow> driver_step sg fs bufs w s = None"
  by (simp add: driver_step_def)

lemma count_all_words_fopen:
  "fs fname = None \<Longrightarrow>
     count_all_words sg fs fname word0 p = Inl (Runtime_error (''fopen: '' @ fname))"
  by (simp add: count_all_words_def count_all_words_with_def)

text \<open>
  C8, as stated, fails: with the word files \<open>missing.txt\<close>, which cannot be opened, and
  \<open>a.txt\<close>, there is a run in which \<^verbatim>\<open>main\<close> creates the first thread, that
  thread fails to open its file, and the process is over: terminated, with no thread
  joined, the second file never read and the pool as it was. Nobody can step after that.
\<close>

theorem unopenable_file_counterexample:
  "run True example_fs example_bufs [Driver, Worker 0]
     (init_proc empty_pool [''missing.txt'', ''a.txt'']) = Some aborted_proc
   \<and> pr_status aborted_proc = Terminated \<and> pr_joined aborted_proc = 0
   \<and> pr_files aborted_proc = [''a.txt''] \<and> pr_pool aborted_proc = empty_pool
   \<and> driver_step True example_fs example_bufs Driver aborted_proc = None
   \<and> driver_step True example_fs example_bufs (Worker 0) aborted_proc = None"
  by (simp add: driver_step_def init_proc_def aborted_proc_def example_fs_def)

text \<open>
  C8, amended: if an input file cannot be opened, \<^verbatim>\<open>count_all_words\<close> on it throws
  \<^verbatim>\<open>std::runtime_error("fopen: " + fname)\<close> before it counts anything, so the failure
  is not silently skipped; but it is fatal to the whole process, not to that worker only.
  Under every schedule the process never exits through \<^verbatim>\<open>exit\<close> and the Driver never
  gets past the join of that worker; the step of that worker, once its thread exists,
  terminates the process, and after that no thread steps any more: the other workers stay
  where they were, joined or not, their inputs fully processed or not.
\<close>

theorem unopenable_file_terminates:
  assumes "k < length files" "fs (files ! k) = None"
    and "run sg fs bufs ws (init_proc p files) = Some s"
  shows "count_all_words sg fs (files ! k) word0 q
           = Inl (Runtime_error (''fopen: '' @ files ! k))
       \<and> (\<forall>n. pr_status s \<noteq> Exited n)
       \<and> pr_joined s \<le> k \<and> pr_joined s < length files
       \<and> (k < length (pr_threads s) \<and> pr_status s = Alive \<longrightarrow>
            driver_step sg fs bufs (Worker k) s = Some (s\<lparr>pr_status := Terminated\<rparr>))
       \<and> (pr_status s = Terminated \<longrightarrow> (\<forall>w. driver_step sg fs bufs w s = None))"
proof -
  have st: "stuck_at files k s"
    using stuck_at_run[OF assms(1,2) stuck_at_init[OF assms(1)] assms(3)] .
  have 1: "count_all_words sg fs (files ! k) word0 q
           = Inl (Runtime_error (''fopen: '' @ files ! k))"
    using assms(2) by (rule count_all_words_fopen)
  have 2: "\<forall>n. pr_status s \<noteq> Exited n" "pr_joined s \<le> k" "pr_joined s < length files"
    using st assms(1) by (auto simp: stuck_at_def)
  have 3: "k < length (pr_threads s) \<and> pr_status s = Alive \<longrightarrow>
            driver_step sg fs bufs (Worker k) s = Some (s\<lparr>pr_status := Terminated\<rparr>)"
    using st assms(2) by (auto simp: stuck_at_def driver_step_def)
  have 4: "pr_status s = Terminated \<longrightarrow> (\<forall>w. driver_step sg fs bufs w s = None)"
    by (simp add: terminated_final)
  show ?thesis using 1 2 3 4 by blast
qed

theorem unopenable_file_terminates_witness:
  "(0::nat) < length [''missing.txt'', ''a.txt'']
   \<and> example_fs ([''missing.txt'', ''a.txt''] ! 0) = None
   \<and> run True example_fs example_bufs [Driver, Worker 0]
        (init_proc empty_pool [''missing.txt'', ''a.txt'']) = Some aborted_proc
   \<and> pr_joined aborted_proc < length [''missing.txt'', ''a.txt'']
   \<and> count_all_words True example_fs ([''missing.txt'', ''a.txt''] ! 0)
        (replicate MAXWORD NUL) empty_pool
       = Inl (Runtime_error (''fopen: '' @ [''missing.txt'', ''a.txt''] ! 0))"
proof -
  have h: "(0::nat) < length [''missing.txt'', ''a.txt'']"
    "example_fs ([''missing.txt'', ''a.txt''] ! 0) = None"
    "run True example_fs example_bufs [Driver, Worker 0]
        (init_proc empty_pool [''missing.txt'', ''a.txt'']) = Some aborted_proc"
    by (simp_all add: driver_step_def init_proc_def aborted_proc_def example_fs_def)
  show ?thesis
    using h unopenable_file_terminates[OF h, of "replicate MAXWORD NUL" empty_pool]
    by blast
qed

end
